theory Spec2Isabelle
  imports Main "HOL-Library.AList" "HOL-Library.Word"
begin

section \<open>Topic filters (topic.cpp)\<close>

subsection \<open>The regular expressions that \<open>wildcardToRegex\<close> can produce\<close>

text \<open>
  \<open>WildcardTopicFilter\<close> hands the string built by \<open>wildcardToRegex\<close> to
  \<open>std::regex\<close> (ECMAScript grammar, the default) and later asks \<open>std::regex_match\<close>
  whether the whole topic belongs to the language of that expression. The model below
  covers the part of the grammar such a string can contain, read the way the GNU C++
  library (libstdc++) reads it. Parentheses, brackets, \<open>^\<close>, \<open>$\<close>, \<open>.\<close>, \<open>*\<close> and the
  backslash of the pattern are always escaped by \<open>wildcardToRegex\<close>, so its output has
  no group, no assertion and no bracket expression other than the generated \<open>[^/]\<close>: it
  is a disjunction (\<open>|\<close>) of alternatives, each a sequence of terms, each term a
  one-character atom followed by any number of quantifiers (\<open>*\<close>, \<open>+\<close>, \<open>?\<close>, \<open>{n}\<close>,
  \<open>{n,}\<close>, \<open>{n,m}\<close>), each quantifier optionally followed by the non-greedy mark \<open>?\<close>,
  which does not change the language. A later quantifier repeats the term as quantified
  so far. A closing bracket or brace that closes nothing is an ordinary character.
\<close>

datatype atom =
    Chr char        \<comment> \<open>an ordinary character or an identity escape\<close>
  | AnyChar         \<comment> \<open>\<open>.\<close>: any character but a line terminator\<close>
  | NotSlash        \<comment> \<open>the bracket expression \<open>[^/]\<close>\<close>

datatype quantifier = Star | Plus | Opt | Braces nat "nat option"

datatype rterm = Rep atom "quantifier list"
  \<comment> \<open>an atom and its quantifiers, the last one read (the outermost) first\<close>

type_synonym regex = "rterm list list"
  \<comment> \<open>the alternatives of the disjunction\<close>

fun atom_match :: "atom \<Rightarrow> char \<Rightarrow> bool" where
  "atom_match (Chr a) c = (c = a)"
| "atom_match AnyChar c = (c \<noteq> CHR 0x0A \<and> c \<noteq> CHR 0x0D)"
| "atom_match NotSlash c = (c \<noteq> CHR ''/'')"

text \<open>The least and the greatest number of repetitions (\<open>None\<close>: no upper bound).\<close>

fun bounds :: "quantifier \<Rightarrow> nat \<times> nat option" where
  "bounds Star = (0, None)"
| "bounds Plus = (1, None)"
| "bounds Opt = (0, Some 1)"
| "bounds (Braces n m) = (n, m)"

definition backslash :: char where
  "backslash = CHR 0x5C"

text \<open>
  The characters the scanner does not take as ordinary ones, and those among them that
  cannot start an atom. A backslash in front of any of them, or of a slash, gives the
  character itself.
\<close>

definition syntax_chars :: "char list" where
  "syntax_chars = [CHR ''^'', CHR ''$'', backslash, CHR ''.'', CHR ''*'', CHR ''+'',
     CHR ''?'', CHR ''('', CHR '')'', CHR ''['', CHR '']'', CHR ''{'', CHR ''}'', CHR ''|'']"

definition no_atom_chars :: "char list" where
  "no_atom_chars = [CHR ''^'', CHR ''$'', CHR ''*'', CHR ''+'', CHR ''?'', CHR ''('',
     CHR '')'', CHR ''{'', CHR ''|'']"

text \<open>
  One atom at the head of the expression. \<open>None\<close> stands for the \<open>std::regex_error\<close>
  the constructor throws (nothing to repeat, a dangling backslash) and for the
  constructs \<open>wildcardToRegex\<close> never emits (groups, assertions, other escapes and
  other bracket expressions).
\<close>

fun parse_atom :: "string \<Rightarrow> (atom \<times> string) option" where
  "parse_atom [] = None"
| "parse_atom (c # cs) =
     (if c = backslash then
        (case cs of
           [] \<Rightarrow> None
         | e # rest \<Rightarrow> if e \<in> set syntax_chars \<or> e = CHR ''/'' then Some (Chr e, rest) else None)
      else if c = CHR ''.'' then Some (AnyChar, cs)
      else if c = CHR ''['' then
        (case cs of
           a # b # d # rest \<Rightarrow>
             if a = CHR ''^'' \<and> b = CHR ''/'' \<and> d = CHR '']'' then Some (NotSlash, rest) else None
         | _ \<Rightarrow> None)
      else if c \<in> set no_atom_chars then None
      else Some (Chr c, cs))"

definition is_digit :: "char \<Rightarrow> bool" where
  "is_digit c = (c \<in> set ''0123456789'')"

definition decimal :: "string \<Rightarrow> nat" where
  "decimal ds = foldl (\<lambda>n d. 10 * n + (of_char d - 48)) 0 ds"

definition skip_lazy :: "string \<Rightarrow> string" where
  "skip_lazy s = (case s of [] \<Rightarrow> [] | c # cs \<Rightarrow> if c = CHR ''?'' then cs else c # cs)"

text \<open>
  The counted quantifier, read after its opening brace: \<open>n}\<close>, \<open>n,}\<close> or \<open>n,m}\<close>
  with \<open>n \<le> m\<close>; anything else is an error.
\<close>

definition parse_braces :: "string \<Rightarrow> (quantifier \<times> string) option" where
  "parse_braces cs =
     (let ds = takeWhile is_digit cs; r1 = dropWhile is_digit cs; n = decimal ds in
      if ds = [] then None
      else (case r1 of
              [] \<Rightarrow> None
            | x # r2 \<Rightarrow>
                if x = CHR ''}'' then Some (Braces n (Some n), r2)
                else if x = CHR '','' then
                  (let ds2 = takeWhile is_digit r2; r3 = dropWhile is_digit r2;
                       m = decimal ds2 in
                   case r3 of
                     [] \<Rightarrow> None
                   | y # r4 \<Rightarrow>
                       if y \<noteq> CHR ''}'' then None
                       else if ds2 = [] then Some (Braces n None, r4)
                       else if n \<le> m then Some (Braces n (Some m), r4)
                       else None)
                else None))"

text \<open>What stands where a quantifier may stand.\<close>

datatype quantifier_result =
    No_quantifier
  | Quantifier quantifier string   \<comment> \<open>the quantifier and the rest of the expression\<close>
  | Bad_quantifier

definition parse_quantifier :: "string \<Rightarrow> quantifier_result" where
  "parse_quantifier s =
     (case s of
        [] \<Rightarrow> No_quantifier
      | c # cs \<Rightarrow>
          if c = CHR ''*'' then Quantifier Star (skip_lazy cs)
          else if c = CHR ''+'' then Quantifier Plus (skip_lazy cs)
          else if c = CHR ''?'' then Quantifier Opt (skip_lazy cs)
          else if c = CHR ''{'' then
            (case parse_braces cs of
               None \<Rightarrow> Bad_quantifier
             | Some (q, r) \<Rightarrow> Quantifier q (skip_lazy r))
          else No_quantifier)"

lemma parse_atom_shorter: "parse_atom s = Some (a, r) \<Longrightarrow> length r < length s"
  by (cases s) (auto split: if_splits list.splits)

lemma skip_lazy_length: "length (skip_lazy s) \<le> length s"
  by (cases s) (auto simp: skip_lazy_def)

lemma dropWhile_Cons_length: "dropWhile P xs = y # ys \<Longrightarrow> length ys < length xs"
  using length_dropWhile_le [of P xs] by simp

lemma parse_braces_shorter:
  assumes "parse_braces cs = Some (q, r)"
  shows "length r < length cs"
proof -
  obtain x r2 where r1: "dropWhile is_digit cs = x # r2"
    using assms by (auto simp: parse_braces_def Let_def split: if_splits list.splits)
  have l2: "length r2 < length cs"
    using r1 by (rule dropWhile_Cons_length)
  show ?thesis
  proof (cases "x = CHR ''}''")
    case True
    with assms r1 have "r = r2"
      by (auto simp: parse_braces_def Let_def split: if_splits)
    with l2 show ?thesis by simp
  next
    case False
    with assms r1 obtain y where r3: "dropWhile is_digit r2 = y # r"
      by (auto simp: parse_braces_def Let_def split: if_splits list.splits)
    then have "length r < length r2"
      by (rule dropWhile_Cons_length)
    with l2 show ?thesis by simp
  qed
qed

lemma parse_quantifier_shorter: "parse_quantifier s = Quantifier q r \<Longrightarrow> length r < length s"
proof (cases s)
  case Nil
  assume "parse_quantifier s = Quantifier q r"
  with Nil show ?thesis by (simp add: parse_quantifier_def)
next
  case (Cons c cs)
  assume p: "parse_quantifier s = Quantifier q r"
  have sk: "length (skip_lazy cs) \<le> length cs" by (rule skip_lazy_length)
  show ?thesis
  proof (cases "c = CHR ''{''")
    case True
    with p Cons obtain r0 where b: "parse_braces cs = Some (q, r0)" and r: "r = skip_lazy r0"
      by (auto simp: parse_quantifier_def split: option.splits)
    have "length r \<le> length r0" unfolding r by (rule skip_lazy_length)
    with parse_braces_shorter [OF b] Cons show ?thesis by simp
  next
    case False
    with p Cons sk show ?thesis
      by (auto simp: parse_quantifier_def split: if_splits)
  qed
qed

text \<open>
  All the quantifiers that follow an atom. A new one goes in front of those read
  before it.
\<close>

function parse_quantifiers :: "string \<Rightarrow> quantifier list \<Rightarrow> (quantifier list \<times> string) option" where
  "parse_quantifiers s qs =
     (case parse_quantifier s of
        No_quantifier \<Rightarrow> Some (qs, s)
      | Bad_quantifier \<Rightarrow> None
      | Quantifier q r \<Rightarrow> parse_quantifiers r (q # qs))"
  by pat_completeness auto
termination
  by (relation "measure (\<lambda>(s, qs). length s)") (auto dest: parse_quantifier_shorter)

declare parse_quantifiers.simps [simp del]

lemma parse_quantifiers_shorter:
  "parse_quantifiers s qs = Some (qs', r) \<Longrightarrow> length r \<le> length s"
proof (induction s qs rule: parse_quantifiers.induct)
  case (1 s qs)
  note unfold = parse_quantifiers.simps [of s qs]
  show ?case
  proof (cases "parse_quantifier s")
    case No_quantifier
    with "1.prems" show ?thesis by (simp add: unfold)
  next
    case (Quantifier q r0)
    with "1.prems" have "parse_quantifiers r0 (q # qs) = Some (qs', r)" by (simp add: unfold)
    from "1.IH" [OF Quantifier this] parse_quantifier_shorter [OF Quantifier]
    show ?thesis by simp
  next
    case Bad_quantifier
    with "1.prems" show ?thesis by (simp add: unfold)
  qed
qed

text \<open>
  The whole expression. The result lists the alternatives; the first one is the
  alternative the terms read so far belong to.
\<close>

function parse_regex :: "string \<Rightarrow> regex option" where
  "parse_regex [] = Some [ [] ]"
| "parse_regex (c # cs) =
     (if c = CHR ''|'' then map_option (\<lambda>alts. [] # alts) (parse_regex cs)
      else
        (case parse_atom (c # cs) of
           None \<Rightarrow> None
         | Some (a, r) \<Rightarrow>
             (case parse_quantifiers r [] of
                None \<Rightarrow> None
              | Some (qs, r') \<Rightarrow>
                  (case parse_regex r' of
                     None \<Rightarrow> None
                   | Some [] \<Rightarrow> None
                   | Some (ts # alts) \<Rightarrow> Some ((Rep a qs # ts) # alts)))))"
  by pat_completeness auto
termination
proof (relation "measure length")
  show "wf (measure length)" by simp
next
  fix c :: char and cs
  show "(cs, c # cs) \<in> measure length" by simp
next
  fix c :: char and cs x2 a r x2a qs r'
  assume "parse_atom (c # cs) = Some x2" "(a, r) = x2"
     "parse_quantifiers r [] = Some x2a" "(qs, r') = x2a"
  then have "length r < length (c # cs)" "length r' \<le> length r"
    using parse_atom_shorter [of "c # cs" a r] parse_quantifiers_shorter [of r "[]" qs r'] by auto
  then show "(r', c # cs) \<in> measure length" by simp
qed

text \<open>
  The library builds an automaton as it reads the expression and throws
  \<open>regex_error\<close> (\<open>error_space\<close>) once the automaton has more than 100000 states. The
  count follows the construction: three states frame the expression, each alternative
  ends in one, each \<open>|\<close> adds two, an atom is one state, \<open>*\<close> and \<open>+\<close> add one,
  \<open>?\<close> adds two, and a counted quantifier leaves the term it repeats aside and builds
  a new sequence from a state of its own, one copy of the term per required
  repetition, and then either one more copy with a loop state (no upper bound) or
  a closing state and one copy with a branch state per optional repetition.
\<close>

definition state_limit :: int where
  "state_limit = 100000"

text \<open>The size of the sequence a quantifier makes of a sequence of \<open>sz\<close> states.\<close>

fun seq_size :: "quantifier \<Rightarrow> int \<Rightarrow> int" where
  "seq_size Star sz = sz + 1"
| "seq_size Plus sz = sz + 1"
| "seq_size Opt sz = sz + 2"
| "seq_size (Braces n None) sz = 1 + int n * sz + (sz + 1)"
| "seq_size (Braces n (Some m)) sz = 1 + int n * sz + 1 + int (m - n) * (sz + 1)"

text \<open>The states a quantifier adds to the automaton.\<close>

fun added_states :: "quantifier \<Rightarrow> int \<Rightarrow> int" where
  "added_states Star sz = 1"
| "added_states Plus sz = 1"
| "added_states Opt sz = 2"
| "added_states (Braces n m) sz = seq_size (Braces n m) sz"

fun seq_states :: "quantifier list \<Rightarrow> int" where
  "seq_states [] = 1"
| "seq_states (q # inner) = seq_size q (seq_states inner)"

fun term_states :: "quantifier list \<Rightarrow> int" where
  "term_states [] = 1"
| "term_states (q # inner) = term_states inner + added_states q (seq_states inner)"

definition nfa_states :: "regex \<Rightarrow> int" where
  "nfa_states re =
     3 + (\<Sum>alt\<leftarrow>re. 1 + (\<Sum>t\<leftarrow>alt. case t of Rep a qs \<Rightarrow> term_states qs))
       + 2 * (int (length re) - 1)"

text \<open>The constructor of \<open>std::regex\<close>; \<open>None\<close> stands for \<open>regex_error\<close>.\<close>

definition regex_compile :: "string \<Rightarrow> regex option" where
  "regex_compile s =
     (case parse_regex s of
        None \<Rightarrow> None
      | Some re \<Rightarrow> if nfa_states re > state_limit then None else Some re)"

text \<open>
  \<open>std::regex_match\<close>: the whole string belongs to the language of the expression.
  The atoms are classes of single characters, so a term accepts the strings over its
  class whose length its quantifiers allow. \<open>sum_of P m k\<close>: \<open>k\<close> is the sum of \<open>m\<close>
  numbers that satisfy \<open>P\<close>. \<open>len_ok qs k\<close>: \<open>k\<close> characters can be split into as many
  pieces as the outermost quantifier allows, each of a length the inner quantifiers
  allow; a lone atom is one character. Looking for more pieces than
  \<open>max lo k\<close> is pointless, since all but \<open>k\<close> of them would be empty
  (lemma \<open>len_ok_Cons_iff\<close>).
\<close>

fun sum_of :: "(nat \<Rightarrow> bool) \<Rightarrow> nat \<Rightarrow> nat \<Rightarrow> bool" where
  "sum_of P 0 k = (k = 0)"
| "sum_of P (Suc m) k = list_ex (\<lambda>j. P j \<and> sum_of P m (k - j)) [0 ..< Suc k]"

fun len_ok :: "quantifier list \<Rightarrow> nat \<Rightarrow> bool" where
  "len_ok [] k = (k = 1)"
| "len_ok (q # inner) k =
     (case bounds q of
        (lo, hi) \<Rightarrow>
          list_ex (\<lambda>m. sum_of (\<lambda>j. len_ok inner j) m k)
            [lo ..< Suc (case hi of None \<Rightarrow> max lo k | Some h \<Rightarrow> min h (max lo k))])"

fun match_terms :: "rterm list \<Rightarrow> string \<Rightarrow> bool" where
  "match_terms [] s = (s = [])"
| "match_terms (Rep a qs # ts) s =
     list_ex (\<lambda>k. len_ok qs k
                  \<and> list_all (atom_match a) (take k s)
                  \<and> match_terms ts (drop k s))
             [0 ..< Suc (length s)]"

definition regex_match :: "string \<Rightarrow> regex \<Rightarrow> bool" where
  "regex_match s re = list_ex (\<lambda>ts. match_terms ts s) re"

subsection \<open>The filters\<close>

fun wildcardToRegex :: "string \<Rightarrow> string" where
  "wildcardToRegex [] = []"
| "wildcardToRegex (c # cs) =
     (if c = CHR ''+'' then ''[^/]+''
      else if c = CHR ''#'' then ''.*''
      else if c = CHR ''.'' \<or> c = CHR ''*'' \<or> c = CHR ''['' \<or> c = CHR '']'' \<or>
              c = CHR ''('' \<or> c = CHR '')'' \<or> c = backslash \<or> c = CHR ''^'' \<or>
              c = CHR ''$''
           then [backslash, c]
      else [c]) @ wildcardToRegex cs"

datatype TopicFilter =
    ExactTopicFilter string             \<comment> \<open>\<open>topic_\<close>\<close>
  | WildcardTopicFilter string regex    \<comment> \<open>\<open>pattern_\<close>, \<open>regex_\<close>\<close>

fun filter_matches :: "TopicFilter \<Rightarrow> string \<Rightarrow> bool" where
  "filter_matches (ExactTopicFilter topic') topic = (topic' = topic)"
| "filter_matches (WildcardTopicFilter pattern re) topic = regex_match topic re"

definition has_wildcards :: "string \<Rightarrow> bool" where
  "has_wildcards pattern = (CHR ''+'' \<in> set pattern \<or> CHR ''#'' \<in> set pattern)"

text \<open>
  \<open>TopicFilterFactory::create\<close>. \<open>None\<close>: the constructor of \<open>std::regex\<close> threw, so
  no filter (and no subscription) comes into being.
\<close>

definition TopicFilterFactory_create :: "string \<Rightarrow> TopicFilter option" where
  "TopicFilterFactory_create pattern =
     (if has_wildcards pattern then
        (case regex_compile (wildcardToRegex pattern) of
           None \<Rightarrow> None
         | Some re \<Rightarrow> Some (WildcardTopicFilter pattern re))
      else Some (ExactTopicFilter pattern))"

text \<open>A subscription with this pattern exists and its filter accepts the topic.\<close>

definition pattern_matches :: "string \<Rightarrow> string \<Rightarrow> bool" where
  "pattern_matches pattern topic =
     (case TopicFilterFactory_create pattern of
        None \<Rightarrow> False
      | Some f \<Rightarrow> filter_matches f topic)"

subsection \<open>The matcher in the words of the specification\<close>

text \<open>
  Section 4.2 of the specification describes the wildcard filter without the detour
  through a regular expression: a literal character stands for itself, \<open>+\<close> for one
  or more characters other than the slash, \<open>#\<close> for any run of characters, the empty
  one included, and the whole topic has to be used up. \<open>spec_wildcard_match\<close> follows
  these words; it is compared with the code's filter below.
\<close>

fun spec_wildcard_match :: "string \<Rightarrow> string \<Rightarrow> bool" where
  "spec_wildcard_match [] t = (t = [])"
| "spec_wildcard_match (p # ps) t =
     (if p = CHR ''+'' then
        list_ex (\<lambda>k. CHR ''/'' \<notin> set (take k t) \<and> spec_wildcard_match ps (drop k t))
          [1 ..< Suc (length t)]
      else if p = CHR ''#'' then
        list_ex (\<lambda>k. spec_wildcard_match ps (drop k t)) [0 ..< Suc (length t)]
      else (case t of [] \<Rightarrow> False | c # cs \<Rightarrow> c = p \<and> spec_wildcard_match ps cs))"

text \<open>
  The characters with a meaning in a regular expression that \<open>wildcardToRegex\<close>
  copies unescaped, and the patterns that have none of them.
\<close>

definition unescaped_chars :: "char list" where
  "unescaped_chars = [CHR ''?'', CHR ''{'', CHR ''}'', CHR ''|'']"

definition escapes_suffice :: "string \<Rightarrow> bool" where
  "escapes_suffice pattern = list_all (\<lambda>c. c \<notin> set unescaped_chars) pattern"

text \<open>
  The term of the compiled expression that a pattern character is meant to become.
\<close>

definition term_of :: "char \<Rightarrow> rterm" where
  "term_of c =
     (if c = CHR ''+'' then Rep NotSlash [Plus]
      else if c = CHR ''#'' then Rep AnyChar [Star]
      else Rep (Chr c) [])"

section \<open>Machine integers\<close>

text \<open>
  \<open>size_t\<close> is taken as 64 bits wide: \<open>+\<close> wraps around, \<open>unat\<close> reads the value.
  The counters of the library are \<open>std::atomic<size_t>\<close>; their \<open>++\<close> is \<open>+ 1\<close> here,
  which takes \<open>SIZE_MAX\<close> to 0.
\<close>

type_synonym size_t = "64 word"

definition SIZE_MAX :: size_t where
  "SIZE_MAX = - 1"

section \<open>Messages (message.hpp)\<close>

datatype Priority = Low | Normal | High | Critical

text \<open>
  The declaration order of the enumerators is their numeric order, which is what
  \<open>message->priority() <= Priority::Normal\<close> compares.
\<close>

fun priority_rank :: "Priority \<Rightarrow> nat" where
  "priority_rank Low = 0"
| "priority_rank Normal = 1"
| "priority_rank High = 2"
| "priority_rank Critical = 3"

text \<open>
  The payload is a \<open>std::any\<close> that neither the broker nor a subscription ever
  inspects; it is carried as uninterpreted bytes. Time stamps are clock ticks.
\<close>

record Message =
  msg_id :: string
  msg_topic :: string
  msg_timestamp :: nat
  msg_priority :: Priority
  msg_headers :: "(string \<times> string) list"
  msg_payload :: string

section \<open>Subscriptions (subscription.hpp, subscription.cpp)\<close>

record SubscriptionOptions =
  max_messages :: size_t
  auto_acknowledge :: bool
  receive_existing_messages :: bool
  timeout_ms :: "64 word"

datatype DeliveryResult = Success | Filtered | Rejected | Timeout | Error

text \<open>
  A callback is user code of type \<open>void(std::shared_ptr<Message>)\<close>. What the
  subscription and the broker can observe of a call is whether it returns or throws;
  the callback is modelled by that outcome on each message.
\<close>

datatype callback_outcome = Returns | Throws

record Subscription =
  sub_id :: string
  sub_filter :: TopicFilter
  callback :: "Message \<Rightarrow> callback_outcome"
  options :: SubscriptionOptions
  message_count :: size_t
  active :: bool

text \<open>The constructor: the counter starts at zero and the subscription is active.\<close>

definition Subscription_new ::
  "string \<Rightarrow> TopicFilter \<Rightarrow> (Message \<Rightarrow> callback_outcome) \<Rightarrow> SubscriptionOptions \<Rightarrow> Subscription"
where
  "Subscription_new i f cb opts =
     \<lparr>sub_id = i, sub_filter = f, callback = cb, options = opts,
      message_count = 0, active = True\<rparr>"

definition sub_matches :: "Subscription \<Rightarrow> string \<Rightarrow> bool" where
  "sub_matches s topic = filter_matches (sub_filter s) topic"

definition is_active :: "Subscription \<Rightarrow> bool" where
  "is_active s = active s"

text \<open>\<open>acknowledge\<close> ignores the message id, changes nothing and returns true.\<close>

definition acknowledge :: "Subscription \<Rightarrow> string \<Rightarrow> bool \<times> Subscription" where
  "acknowledge s message_id = (True, s)"

definition cancel :: "Subscription \<Rightarrow> Subscription" where
  "cancel s = s\<lparr>active := False\<rparr>"

text \<open>
  \<open>deliver\<close> returns its result, the subscription after the call and the calls it made
  to the callback (none, or one with the message). An exception leaving the callback is
  caught by \<open>catch (...)\<close>, so the function has no exceptional exit of its own.
\<close>

definition deliver :: "Subscription \<Rightarrow> Message \<Rightarrow> DeliveryResult \<times> Subscription \<times> Message list" where
  "deliver s message =
     (if \<not> is_active s then (Rejected, s, [])
      else if \<not> sub_matches s (msg_topic message) then (Filtered, s, [])
      else if max_messages (options s) > 0 \<and> message_count s \<ge> max_messages (options s)
        then (Rejected, s, [])
      else
        (let s1 = s\<lparr>message_count := message_count s + 1\<rparr> in
         case callback s1 message of
           Throws \<Rightarrow> (Error, s1, [message])
         | Returns \<Rightarrow>
             (let s2 = (if auto_acknowledge (options s1)
                        then snd (acknowledge s1 (msg_id message)) else s1)
              in (Success, s2, [message]))))"

text \<open>
  The operations of the class that are not \<open>const\<close>; \<open>active_\<close> and
  \<open>message_count_\<close> are private, so nothing else writes them.
\<close>

datatype sub_op = Deliver Message | Acknowledge string | Cancel

fun sub_step :: "Subscription \<Rightarrow> sub_op \<Rightarrow> Subscription" where
  "sub_step s (Deliver m) = fst (snd (deliver s m))"
| "sub_step s (Acknowledge i) = snd (acknowledge s i)"
| "sub_step s Cancel = cancel s"

text \<open>Delivering a sequence of messages one after the other, with the results.\<close>

fun deliver_seq :: "Subscription \<Rightarrow> Message list \<Rightarrow> DeliveryResult list \<times> Subscription" where
  "deliver_seq s [] = ([], s)"
| "deliver_seq s (m # ms) =
     (case deliver s m of
        (r, s', calls) \<Rightarrow> (case deliver_seq s' ms of (rs, s'') \<Rightarrow> (r # rs, s'')))"

section \<open>The broker (broker.hpp, broker.cpp)\<close>

record BrokerConfig =
  thread_count :: size_t
  max_queue_size :: size_t
  retain_messages :: bool
  max_retained_messages :: size_t
  strict_topic_matching :: bool

text \<open>
  The model is sequential: one call of the broker's interface or one round of a worker
  runs at a time, so the mutexes, the condition variable and the atomicity of the
  counters do not appear.

  The registry \<open>subscriptions_\<close> is an \<open>unordered_map\<close> from subscription ids to
  shared subscription objects: a list of entries, in the map's iteration order, with
  pairwise different keys. The queue is the list of pending messages, front first; its
  \<open>size()\<close> is the length of the list, a number that fits \<open>size_t\<close> for every queue
  that fits a memory. The topic index and the worker threads themselves play no part in
  \<open>publish\<close> and \<open>process_message\<close> and are left out of the state.
\<close>

record Broker =
  config :: BrokerConfig
  running :: bool
  published_messages :: size_t
  delivered_messages :: size_t
  subscriptions :: "(string \<times> Subscription) list"
  message_queue :: "Message list"

text \<open>
  \<open>publish\<close>. The comparison of the message's topic with \<open>topic_str\<close> guards an empty
  block. Both branches of the priority test on a full queue return false.
\<close>

definition publish :: "Broker \<Rightarrow> string \<Rightarrow> Message \<Rightarrow> bool \<times> Broker" where
  "publish b topic_str message =
     (if \<not> running b then (False, b)
      else
        (let b0 = (if msg_topic message \<noteq> topic_str then b else b);
             b1 = b0\<lparr>published_messages := published_messages b0 + 1\<rparr>
         in
           if max_queue_size (config b1) > 0
              \<and> length (message_queue b1) \<ge> unat (max_queue_size (config b1))
           then
             (if priority_rank (msg_priority message) \<le> priority_rank Normal
              then (False, b1)
              else (False, b1))
           else (True, b1\<lparr>message_queue := message_queue b1 @ [message]\<rparr>)))"

text \<open>Publishing a sequence of (topic, message) pairs, with the result of each call.\<close>

fun publish_seq :: "Broker \<Rightarrow> (string \<times> Message) list \<Rightarrow> bool list \<times> Broker" where
  "publish_seq b [] = ([], b)"
| "publish_seq b ((t, m) # rest) =
     (case publish b t m of
        (ok, b') \<Rightarrow> (case publish_seq b' rest of (oks, b'') \<Rightarrow> (ok # oks, b'')))"

text \<open>
  \<open>process_message\<close>. The first loop collects pointers to the matching subscriptions,
  in the registry's order; a pointer is the key of the registry entry. The second loop
  calls \<open>deliver\<close> through each pointer, which updates the object it points to, and
  counts the successes. The log lists the calls to \<open>deliver\<close>: the subscription's
  key and the result. A pointer of the snapshot always has its object; the branch for
  a key without an entry is there to make the function total and is never taken for
  keys that come from the registry.
\<close>

definition find_matching :: "Broker \<Rightarrow> Message \<Rightarrow> string list" where
  "find_matching b message =
     map fst (filter (\<lambda>(k, s). sub_matches s (msg_topic message)) (subscriptions b))"

fun deliver_each ::
  "Message \<Rightarrow> string list \<Rightarrow> Broker \<Rightarrow> (string \<times> DeliveryResult) list
     \<Rightarrow> Broker \<times> (string \<times> DeliveryResult) list"
where
  "deliver_each message [] b log = (b, log)"
| "deliver_each message (k # ks) b log =
     (case map_of (subscriptions b) k of
        None \<Rightarrow> deliver_each message ks b log
      | Some s \<Rightarrow>
          (case deliver s message of
             (r, s', calls) \<Rightarrow>
               (let b1 = b\<lparr>subscriptions := AList.update k s' (subscriptions b)\<rparr>;
                    b2 = (if r = Success
                          then b1\<lparr>delivered_messages := delivered_messages b1 + 1\<rparr>
                          else b1)
                in deliver_each message ks b2 (log @ [(k, r)]))))"

definition process_message :: "Broker \<Rightarrow> Message \<Rightarrow> Broker \<times> (string \<times> DeliveryResult) list" where
  "process_message b message = deliver_each message (find_matching b message) b []"

text \<open>
  One round of \<open>worker_thread\<close> once its wait is over: with an empty queue nothing is
  processed (the worker leaves or waits again), otherwise the front message is taken
  off the queue and processed.
\<close>

definition worker_round :: "Broker \<Rightarrow> Broker \<times> (string \<times> DeliveryResult) list" where
  "worker_round b =
     (case message_queue b of
        [] \<Rightarrow> (b, [])
      | message # rest \<Rightarrow> process_message (b\<lparr>message_queue := rest\<rparr>) message)"


section \<open>Example values\<close>

text \<open>A message, subscriptions with an exact filter and a broker, for concrete runs.\<close>

definition example_message :: "string \<Rightarrow> Priority \<Rightarrow> Message" where
  "example_message t p =
     \<lparr>msg_id = ''0001'', msg_topic = t, msg_timestamp = 0, msg_priority = p,
      msg_headers = [], msg_payload = ''x''\<rparr>"

definition example_options :: "size_t \<Rightarrow> SubscriptionOptions" where
  "example_options n =
     \<lparr>max_messages = n, auto_acknowledge = True, receive_existing_messages = False,
      timeout_ms = 0\<rparr>"

definition example_subscription :: "string \<Rightarrow> string \<Rightarrow> callback_outcome \<Rightarrow> size_t \<Rightarrow> Subscription" where
  "example_subscription i t out n =
     Subscription_new i (ExactTopicFilter t) (\<lambda>m. out) (example_options n)"

definition example_broker :: "size_t \<Rightarrow> (string \<times> Subscription) list \<Rightarrow> Broker" where
  "example_broker K subs =
     \<lparr>config = \<lparr>thread_count = 1, max_queue_size = K, retain_messages = True,
                max_retained_messages = 100, strict_topic_matching = False\<rparr>,
      running = True, published_messages = 0, delivered_messages = 0,
      subscriptions = subs, message_queue = []\<rparr>"

definition example_registry :: "(string \<times> Subscription) list" where
  "example_registry =
     [(''sub_0'', example_subscription ''sub_0'' ''a'' Returns 0),
      (''sub_1'', example_subscription ''sub_1'' ''b'' Returns 0),
      (''sub_2'', example_subscription ''sub_2'' ''a'' Throws 0)]"

section \<open>Properties of the wildcard filter\<close>

lemma sum_of_ones: "sum_of (\<lambda>j. j = Suc 0) m k \<longleftrightarrow> k = m"
proof (induction m arbitrary: k)
  case 0
  show ?case by simp
next
  case (Suc m)
  have "sum_of (\<lambda>j. j = Suc 0) (Suc m) k \<longleftrightarrow> (\<exists>j\<le>k. j = Suc 0 \<and> k - j = m)"
    unfolding sum_of.simps list_ex_iff set_upt using Suc.IH by (auto simp: less_Suc_eq_le)
  also have "\<dots> \<longleftrightarrow> k = Suc m" by auto
  finally show ?case .
qed

lemma sum_of_Suc_iff:
  "sum_of P (Suc m) k \<longleftrightarrow> (\<exists>j\<le>k. P j \<and> sum_of P m (k - j))"
  unfolding sum_of.simps list_ex_iff set_upt by (auto simp: less_Suc_eq_le)

lemma sum_of_drop: "sum_of P (Suc m) k \<Longrightarrow> k \<le> m \<Longrightarrow> sum_of P m k"
proof (induction m arbitrary: k)
  case 0
  then show ?case by (simp add: sum_of_Suc_iff)
next
  case (Suc m)
  from Suc.prems(1) obtain j where j: "j \<le> k" "P j" "sum_of P (Suc m) (k - j)"
    unfolding sum_of_Suc_iff [of P "Suc m"] by blast
  show ?case
  proof (cases "j = 0")
    case True
    with j show ?thesis by simp
  next
    case False
    with j(1) Suc.prems(2) have "k - j \<le> m" by simp
    from Suc.IH [OF j(3) this] j(1,2) show ?thesis
      unfolding sum_of_Suc_iff [of P m] by blast
  qed
qed

lemma sum_of_down: "sum_of P (m' + d) k \<Longrightarrow> k \<le> m' \<Longrightarrow> sum_of P m' k"
proof (induction d)
  case 0
  then show ?case by simp
next
  case (Suc d)
  have "sum_of P (Suc (m' + d)) k" using Suc.prems(1) by simp
  moreover have "k \<le> m' + d" using Suc.prems(2) by simp
  ultimately have "sum_of P (m' + d) k" by (rule sum_of_drop)
  then show ?case using Suc.prems(2) by (rule Suc.IH)
qed

text \<open>
  The lengths a quantified term accepts, without the bound on the number of pieces
  that makes \<open>len_ok\<close> computable.
\<close>

lemma len_ok_Cons_iff:
  "len_ok (q # inner) k \<longleftrightarrow>
     (\<exists>m. fst (bounds q) \<le> m \<and> (case snd (bounds q) of None \<Rightarrow> True | Some h \<Rightarrow> m \<le> h)
          \<and> sum_of (len_ok inner) m k)"
  (is "?L \<longleftrightarrow> ?R")
proof -
  obtain lo hi where b: "bounds q = (lo, hi)" by (cases "bounds q")
  define top where "top = (case hi of None \<Rightarrow> max lo k | Some h \<Rightarrow> min h (max lo k))"
  have "?L \<longleftrightarrow> list_ex (\<lambda>m. sum_of (len_ok inner) m k) [lo ..< Suc top]"
    by (simp only: len_ok.simps b prod.case top_def)
  also have "\<dots> \<longleftrightarrow> (\<exists>m. lo \<le> m \<and> m \<le> top \<and> sum_of (len_ok inner) m k)"
    by (simp only: list_ex_iff set_upt atLeastLessThan_iff less_Suc_eq_le Bex_def conj_assoc)
  finally have L: "?L \<longleftrightarrow> (\<exists>m. lo \<le> m \<and> m \<le> top \<and> sum_of (len_ok inner) m k)" .
  have R: "?R \<longleftrightarrow> (\<exists>m. lo \<le> m \<and> (case hi of None \<Rightarrow> True | Some h \<Rightarrow> m \<le> h)
          \<and> sum_of (len_ok inner) m k)"
    by (simp only: b fst_conv snd_conv)
  show ?thesis
  proof
    assume ?L
    then obtain m where m: "lo \<le> m" "m \<le> top" "sum_of (len_ok inner) m k"
      unfolding L by blast
    have "case hi of None \<Rightarrow> True | Some h \<Rightarrow> m \<le> h"
      using m(2) by (cases hi) (simp_all add: top_def)
    with m(1,3) show ?R unfolding R by blast
  next
    assume ?R
    then obtain m where m: "lo \<le> m" "case hi of None \<Rightarrow> True | Some h \<Rightarrow> m \<le> h"
        "sum_of (len_ok inner) m k"
      unfolding R by blast
    show ?L
    proof (cases "m \<le> max lo k")
      case True
      with m(2) have "m \<le> top" by (cases hi) (simp_all add: top_def)
      with m(1,3) show ?thesis unfolding L by blast
    next
      case False
      define d where "d = m - max lo k"
      have md: "m = max lo k + d" using False by (simp add: d_def)
      have "sum_of (len_ok inner) (max lo k + d) k" using m(3) md by simp
      moreover have "k \<le> max lo k" by simp
      ultimately have s: "sum_of (len_ok inner) (max lo k) k" by (rule sum_of_down)
      have "max lo k \<le> top" using False m(2) by (cases hi) (auto simp: top_def)
      moreover have "lo \<le> max lo k" by simp
      ultimately show ?thesis using s unfolding L by blast
    qed
  qed
qed

lemma len_ok_Nil: "len_ok [] = (\<lambda>j. j = Suc 0)"
  by (rule ext) simp

lemma len_ok_Plus: "len_ok [Plus] k \<longleftrightarrow> 1 \<le> k"
proof -
  have "len_ok [Plus] k \<longleftrightarrow> (\<exists>m. 1 \<le> m \<and> k = m)"
    unfolding len_ok_Cons_iff len_ok_Nil sum_of_ones by simp
  then show ?thesis by simp
qed

lemma len_ok_Star: "len_ok [Star] k"
proof -
  have "len_ok [Star] k \<longleftrightarrow> (\<exists>m. k = m)"
    unfolding len_ok_Cons_iff len_ok_Nil sum_of_ones by simp
  then show ?thesis by simp
qed

text \<open>
  What a term of the compiled expression accepts: a prefix of an allowed length made of
  characters of its class, followed by what the rest of the alternative accepts.
\<close>

lemma match_terms_Cons_iff:
  "match_terms (Rep a qs # ts) s \<longleftrightarrow>
     (\<exists>u v. s = u @ v \<and> len_ok qs (length u) \<and> (\<forall>c\<in>set u. atom_match a c) \<and> match_terms ts v)"
  (is "?L \<longleftrightarrow> ?R")
proof
  assume ?L
  then obtain k where k: "k \<le> length s" "len_ok qs k"
      "list_all (atom_match a) (take k s)" "match_terms ts (drop k s)"
    unfolding match_terms.simps list_ex_iff set_upt by (auto simp: less_Suc_eq_le)
  have "s = take k s @ drop k s" "length (take k s) = k"
    using k(1) by simp_all
  with k show ?R
    by (metis list_all_iff)
next
  assume ?R
  then obtain u v where uv: "s = u @ v" "len_ok qs (length u)"
      "\<forall>c\<in>set u. atom_match a c" "match_terms ts v"
    by blast
  have k: "length u \<in> set [0 ..< Suc (length s)]" using uv(1) by simp
  have "len_ok qs (length u)
        \<and> list_all (atom_match a) (take (length u) s)
        \<and> match_terms ts (drop (length u) s)"
    using uv by (simp add: list_all_iff)
  with k show ?L
    unfolding match_terms.simps list_ex_iff by (rule bexI [rotated])
qed

lemma match_terms_literal:
  "match_terms (Rep (Chr c) [] # ts) s \<longleftrightarrow> (\<exists>v. s = c # v \<and> match_terms ts v)"
proof -
  have "(\<exists>u v. s = u @ v \<and> length u = 1 \<and> (\<forall>x\<in>set u. x = c) \<and> match_terms ts v)
      \<longleftrightarrow> (\<exists>v. s = c # v \<and> match_terms ts v)" (is "?A \<longleftrightarrow> ?B")
  proof
    assume ?A
    then obtain u v where uv: "s = u @ v" "length u = 1" "\<forall>x\<in>set u. x = c" "match_terms ts v"
      by blast
    then obtain x where "u = [x]" by (cases u) auto
    with uv show ?B by simp
  next
    assume ?B
    then obtain v where "s = [c] @ v" "match_terms ts v" by auto
    then show ?A by (intro exI [of _ "[c]"] exI [of _ v]) simp
  qed
  then show ?thesis by (simp add: match_terms_Cons_iff del: match_terms.simps)
qed

lemma match_terms_plus:
  "match_terms (Rep a [Plus] # ts) s \<longleftrightarrow>
     (\<exists>u v. s = u @ v \<and> u \<noteq> [] \<and> (\<forall>c\<in>set u. atom_match a c) \<and> match_terms ts v)"
  by (simp add: match_terms_Cons_iff len_ok_Plus Suc_le_eq del: match_terms.simps len_ok.simps)

lemma match_terms_star:
  "match_terms (Rep a [Star] # ts) s \<longleftrightarrow>
     (\<exists>u v. s = u @ v \<and> (\<forall>c\<in>set u. atom_match a c) \<and> match_terms ts v)"
  by (simp add: match_terms_Cons_iff len_ok_Star del: match_terms.simps len_ok.simps)

lemma compiled_a_plus_c:
  "TopicFilterFactory_create ''a/+/c'' = Some (WildcardTopicFilter ''a/+/c''
     [ [Rep (Chr CHR ''a'') [], Rep (Chr CHR ''/'') [], Rep NotSlash [Plus],
        Rep (Chr CHR ''/'') [], Rep (Chr CHR ''c'') []] ])"
  by code_simp

lemma a_plus_c_iff:
  "pattern_matches ''a/+/c'' t \<longleftrightarrow>
     (\<exists>seg. seg \<noteq> [] \<and> CHR ''/'' \<notin> set seg \<and> t = ''a/'' @ seg @ ''/c'')"
proof -
  have "pattern_matches ''a/+/c'' t \<longleftrightarrow>
      match_terms [Rep (Chr CHR ''a'') [], Rep (Chr CHR ''/'') [], Rep NotSlash [Plus],
        Rep (Chr CHR ''/'') [], Rep (Chr CHR ''c'') []] t"
    by (simp add: pattern_matches_def compiled_a_plus_c regex_match_def del: match_terms.simps)
  also have "\<dots> \<longleftrightarrow> (\<exists>seg. seg \<noteq> [] \<and> CHR ''/'' \<notin> set seg \<and> t = ''a/'' @ seg @ ''/c'')"
    by (auto simp: match_terms_literal match_terms_plus simp del: match_terms.simps(2))
  finally show ?thesis .
qed

lemma compiled_hash:
  "TopicFilterFactory_create ''#'' = Some (WildcardTopicFilter ''#'' [ [Rep AnyChar [Star]] ])"
  by code_simp

lemma hash_iff:
  "pattern_matches ''#'' t \<longleftrightarrow> CHR 0x0A \<notin> set t \<and> CHR 0x0D \<notin> set t"
proof -
  have "pattern_matches ''#'' t \<longleftrightarrow> match_terms [Rep AnyChar [Star]] t"
    by (simp add: pattern_matches_def compiled_hash regex_match_def del: match_terms.simps)
  also have "\<dots> \<longleftrightarrow> CHR 0x0A \<notin> set t \<and> CHR 0x0D \<notin> set t"
    by (auto simp: match_terms_star simp del: match_terms.simps(2))
  finally show ?thesis .
qed

lemma compiled_a_hash:
  "TopicFilterFactory_create ''a/#'' = Some (WildcardTopicFilter ''a/#''
     [ [Rep (Chr CHR ''a'') [], Rep (Chr CHR ''/'') [], Rep AnyChar [Star]] ])"
  by code_simp

lemma a_hash_iff:
  "pattern_matches ''a/#'' t \<longleftrightarrow>
     (\<exists>r. t = ''a/'' @ r \<and> CHR 0x0A \<notin> set r \<and> CHR 0x0D \<notin> set r)"
proof -
  have "pattern_matches ''a/#'' t \<longleftrightarrow>
      match_terms [Rep (Chr CHR ''a'') [], Rep (Chr CHR ''/'') [], Rep AnyChar [Star]] t"
    by (simp add: pattern_matches_def compiled_a_hash regex_match_def del: match_terms.simps)
  also have "\<dots> \<longleftrightarrow> (\<exists>r. t = ''a/'' @ r \<and> CHR 0x0A \<notin> set r \<and> CHR 0x0D \<notin> set r)"
    by (auto simp: match_terms_literal match_terms_star simp del: match_terms.simps(2))
  finally show ?thesis .
qed

lemma next_is_no_quantifier:
  assumes "escapes_suffice cs"
  shows "parse_quantifiers (wildcardToRegex cs) qs = Some (qs, wildcardToRegex cs)"
    and "skip_lazy (wildcardToRegex cs) = wildcardToRegex cs"
proof -
  have "parse_quantifier (wildcardToRegex cs) = No_quantifier"
    using assms
    by (cases cs) (simp_all add: escapes_suffice_def unescaped_chars_def parse_quantifier_def
        backslash_def)
  then show "parse_quantifiers (wildcardToRegex cs) qs = Some (qs, wildcardToRegex cs)"
    by (simp add: parse_quantifiers.simps [of "wildcardToRegex cs"])
  show "skip_lazy (wildcardToRegex cs) = wildcardToRegex cs"
    using assms
    by (cases cs) (simp_all add: escapes_suffice_def unescaped_chars_def skip_lazy_def backslash_def)
qed

lemma parse_escaped:
  "escapes_suffice p \<Longrightarrow> parse_regex (wildcardToRegex p) = Some [map term_of p]"
proof (induction p)
  case Nil
  then show ?case by simp
next
  case (Cons c cs)
  then have cs: "escapes_suffice cs" and c: "c \<notin> set unescaped_chars"
    by (simp_all add: escapes_suffice_def)
  note ih = Cons.IH [OF cs] and nq = next_is_no_quantifier [OF cs]
  have quant: "parse_quantifiers (x # wildcardToRegex cs) [] = Some ([q], wildcardToRegex cs)"
    if "parse_quantifier (x # wildcardToRegex cs) = Quantifier q (wildcardToRegex cs)" for x q
    using that nq(1) [of "[q]"] by (simp add: parse_quantifiers.simps [of "x # wildcardToRegex cs"])
  consider (plus) "c = CHR ''+''" | (hash) "c = CHR ''#''"
    | (esc) "c \<in> set [CHR ''.'', CHR ''*'', CHR ''['', CHR '']'', CHR ''('', CHR '')'', backslash, CHR ''^'', CHR ''$'']"
    | (lit) "c \<notin> set [CHR ''+'', CHR ''#'', CHR ''.'', CHR ''*'', CHR ''['', CHR '']'', CHR ''('', CHR '')'', backslash, CHR ''^'', CHR ''$'']"
    by auto
  then show ?case
  proof cases
    case plus
    have "parse_quantifiers (CHR ''+'' # wildcardToRegex cs) [] = Some ([Plus], wildcardToRegex cs)"
      by (rule quant) (simp add: parse_quantifier_def nq)
    with plus show ?thesis
      by (simp add: ih backslash_def term_of_def)
  next
    case hash
    have "parse_quantifiers (CHR ''*'' # wildcardToRegex cs) [] = Some ([Star], wildcardToRegex cs)"
      by (rule quant) (simp add: parse_quantifier_def nq)
    with hash show ?thesis
      by (simp add: ih backslash_def term_of_def)
  next
    case esc
    then show ?thesis
      by (auto simp: ih nq backslash_def syntax_chars_def term_of_def)
  next
    case lit
    with c show ?thesis
      by (simp add: ih nq backslash_def no_atom_chars_def unescaped_chars_def term_of_def)
  qed
qed

lemma states_escaped: "nfa_states [map term_of p] \<le> 2 * int (length p) + 4"
proof -
  have "(\<Sum>t\<leftarrow>map term_of p. case t of Rep a qs \<Rightarrow> term_states qs) \<le> 2 * int (length p)"
    by (induction p) (simp_all add: term_of_def)
  then show ?thesis by (simp add: nfa_states_def)
qed

lemma compile_escaped:
  assumes "escapes_suffice p" and "2 * int (length p) + 4 \<le> state_limit"
  shows "regex_compile (wildcardToRegex p) = Some [map term_of p]"
  using assms(2) states_escaped [of p]
  by (simp add: regex_compile_def parse_escaped [OF assms(1)])

lemma spec_plus_iff:
  "list_ex (\<lambda>k. CHR ''/'' \<notin> set (take k t) \<and> Q (drop k t)) [1 ..< Suc (length t)]
     \<longleftrightarrow> (\<exists>u v. t = u @ v \<and> u \<noteq> [] \<and> (\<forall>c\<in>set u. atom_match NotSlash c) \<and> Q v)"
  (is "?L \<longleftrightarrow> ?R")
proof
  assume ?L
  then obtain k where k: "1 \<le> k" "k \<le> length t" "CHR ''/'' \<notin> set (take k t)" "Q (drop k t)"
    unfolding list_ex_iff set_upt by auto
  have "t = take k t @ drop k t" "take k t \<noteq> []" "\<forall>c\<in>set (take k t). atom_match NotSlash c"
    using k by auto
  with k(4) show ?R by blast
next
  assume ?R
  then obtain u v where uv: "t = u @ v" "u \<noteq> []" "\<forall>c\<in>set u. atom_match NotSlash c" "Q v"
    by blast
  have "1 \<le> length u" using uv(2) by (cases u) simp_all
  then have k: "length u \<in> set [1 ..< Suc (length t)]" unfolding set_upt using uv(1) by simp
  have "CHR ''/'' \<notin> set (take (length u) t) \<and> Q (drop (length u) t)"
    using uv by auto
  with k show ?L unfolding list_ex_iff by (rule bexI [rotated])
qed

lemma spec_hash_iff:
  "list_ex (\<lambda>k. Q (drop k t)) [0 ..< Suc (length t)] \<longleftrightarrow> (\<exists>u v. t = u @ v \<and> Q v)"
  (is "?L \<longleftrightarrow> ?R")
proof
  assume ?L
  then obtain k where k: "k \<le> length t" "Q (drop k t)"
    unfolding list_ex_iff set_upt by (auto simp: less_Suc_eq_le)
  have "t = take k t @ drop k t" by simp
  with k(2) show ?R by blast
next
  assume ?R
  then obtain u v where uv: "t = u @ v" "Q v" by blast
  have k: "length u \<in> set [0 ..< Suc (length t)]" unfolding set_upt using uv(1) by simp
  have "Q (drop (length u) t)" using uv by auto
  with k show ?L unfolding list_ex_iff by (rule bexI [rotated])
qed

lemma match_terms_spec:
  assumes "CHR ''#'' \<in> set p \<longrightarrow> CHR 0x0A \<notin> set t \<and> CHR 0x0D \<notin> set t"
  shows "match_terms (map term_of p) t \<longleftrightarrow> spec_wildcard_match p t"
  using assms
proof (induction p arbitrary: t)
  case Nil
  then show ?case by simp
next
  case (Cons c cs)
  have ih: "match_terms (map term_of cs) v \<longleftrightarrow> spec_wildcard_match cs v"
    if "t = u @ v" for u v
    using Cons.IH [of v] Cons.prems that by auto
  consider (plus) "c = CHR ''+''" | (hash) "c = CHR ''#''" | (lit) "c \<noteq> CHR ''+''" "c \<noteq> CHR ''#''"
    by blast
  then show ?case
  proof cases
    case plus
    have "match_terms (map term_of (c # cs)) t \<longleftrightarrow>
        (\<exists>u v. t = u @ v \<and> u \<noteq> [] \<and> (\<forall>x\<in>set u. atom_match NotSlash x) \<and> match_terms (map term_of cs) v)"
      using plus by (simp add: term_of_def match_terms_plus del: match_terms.simps(2))
    also have "\<dots> \<longleftrightarrow>
        (\<exists>u v. t = u @ v \<and> u \<noteq> [] \<and> (\<forall>x\<in>set u. atom_match NotSlash x) \<and> spec_wildcard_match cs v)"
      using ih by blast
    also have "\<dots> \<longleftrightarrow> spec_wildcard_match (c # cs) t"
      using plus spec_plus_iff [of t "spec_wildcard_match cs"] by simp
    finally show ?thesis .
  next
    case hash
    with Cons.prems have nl: "CHR 0x0A \<notin> set t" "CHR 0x0D \<notin> set t" by simp_all
    have "match_terms (map term_of (c # cs)) t \<longleftrightarrow>
        (\<exists>u v. t = u @ v \<and> (\<forall>x\<in>set u. atom_match AnyChar x) \<and> match_terms (map term_of cs) v)"
      using hash by (simp add: term_of_def match_terms_star del: match_terms.simps(2))
    also have "\<dots> \<longleftrightarrow> (\<exists>u v. t = u @ v \<and> spec_wildcard_match cs v)"
      using ih nl by fastforce
    also have "\<dots> \<longleftrightarrow> spec_wildcard_match (c # cs) t"
      using hash spec_hash_iff [of "spec_wildcard_match cs" t] by simp
    finally show ?thesis .
  next
    case lit
    have "match_terms (map term_of (c # cs)) t \<longleftrightarrow> (\<exists>v. t = c # v \<and> match_terms (map term_of cs) v)"
      using lit by (simp add: term_of_def match_terms_literal del: match_terms.simps(2))
    also have "\<dots> \<longleftrightarrow> (\<exists>v. t = c # v \<and> spec_wildcard_match cs v)"
      using ih [of "[c]"] by auto
    also have "\<dots> \<longleftrightarrow> spec_wildcard_match (c # cs) t"
      using lit by (cases t) auto
    finally show ?thesis .
  qed
qed

text \<open>
  The code's filter against the specification's matcher. A pattern with a wildcard and
  with none of \<open>?\<close>, \<open>{\<close>, \<open>}\<close>, \<open>|\<close>, short enough for its automaton to stay
  within the state limit, compiles, and its filter accepts a topic exactly when the
  specification's matcher does, provided the topic has no line terminator where the
  pattern has a \<open>#\<close>.
\<close>

theorem wildcard_filter_refines_spec:
  assumes "has_wildcards p" and "escapes_suffice p"
    and "2 * int (length p) + 4 \<le> state_limit"
    and "CHR ''#'' \<in> set p \<longrightarrow> CHR 0x0A \<notin> set t \<and> CHR 0x0D \<notin> set t"
  shows "TopicFilterFactory_create p \<noteq> None
       \<and> (pattern_matches p t \<longleftrightarrow> spec_wildcard_match p t)"
  using assms(1) match_terms_spec [OF assms(4)]
  by (simp add: pattern_matches_def TopicFilterFactory_create_def
      compile_escaped [OF assms(2,3)] regex_match_def del: match_terms.simps)

theorem wildcard_filter_refines_spec_witness:
  "has_wildcards ''sensors/+/#'' \<and> escapes_suffice ''sensors/+/#''
 \<and> TopicFilterFactory_create ''sensors/+/#'' \<noteq> None
 \<and> pattern_matches ''sensors/+/#'' ''sensors/1/temp''
 \<and> spec_wildcard_match ''sensors/+/#'' ''sensors/1/temp''"
proof -
  have h: "has_wildcards ''sensors/+/#''" "escapes_suffice ''sensors/+/#''"
    "2 * int (length ''sensors/+/#'') + 4 \<le> state_limit"
    "CHR ''#'' \<in> set ''sensors/+/#'' \<longrightarrow>
       CHR 0x0A \<notin> set ''sensors/1/temp'' \<and> CHR 0x0D \<notin> set ''sensors/1/temp''"
    by (simp_all add: has_wildcards_def escapes_suffice_def unescaped_chars_def state_limit_def)
  have m: "spec_wildcard_match ''sensors/+/#'' ''sensors/1/temp''" by code_simp
  from wildcard_filter_refines_spec [OF h] h m show ?thesis by simp
qed

text \<open>
  C7. The wildcard \<open>+\<close> stands for exactly one segment that is not empty and has no
  slash: \<open>a/+/c\<close> accepts \<open>a/b/c\<close> and rejects \<open>a/b/d/c\<close>, \<open>a//c\<close> and \<open>a/c\<close>;
  \<open>sensors/+/temp\<close> accepts \<open>sensors/1/temp\<close> and rejects \<open>sensors/1/2/temp\<close> and
  \<open>sensors//temp\<close>. In general the topics \<open>a/+/c\<close> accepts are those made of \<open>a/\<close>,
  one such segment and \<open>/c\<close>.
\<close>

theorem plus_matches_one_segment:
  "pattern_matches ''a/+/c'' ''a/b/c''
 \<and> \<not> pattern_matches ''a/+/c'' ''a/b/d/c''
 \<and> \<not> pattern_matches ''a/+/c'' ''a//c''
 \<and> \<not> pattern_matches ''a/+/c'' ''a/c''
 \<and> pattern_matches ''sensors/+/temp'' ''sensors/1/temp''
 \<and> \<not> pattern_matches ''sensors/+/temp'' ''sensors/1/2/temp''
 \<and> \<not> pattern_matches ''sensors/+/temp'' ''sensors//temp''
 \<and> (\<forall>t. pattern_matches ''a/+/c'' t \<longleftrightarrow>
          (\<exists>seg. seg \<noteq> [] \<and> CHR ''/'' \<notin> set seg \<and> t = ''a/'' @ seg @ ''/c''))"
proof -
  have "pattern_matches ''a/+/c'' ''a/b/c''" by code_simp
  moreover have "\<not> pattern_matches ''a/+/c'' ''a/b/d/c''" by code_simp
  moreover have "\<not> pattern_matches ''a/+/c'' ''a//c''" by code_simp
  moreover have "\<not> pattern_matches ''a/+/c'' ''a/c''" by code_simp
  moreover have "pattern_matches ''sensors/+/temp'' ''sensors/1/temp''" by code_simp
  moreover have "\<not> pattern_matches ''sensors/+/temp'' ''sensors/1/2/temp''" by code_simp
  moreover have "\<not> pattern_matches ''sensors/+/temp'' ''sensors//temp''" by code_simp
  ultimately show ?thesis using a_plus_c_iff by blast
qed

text \<open>
  C8, amended. The pattern \<open>a/#\<close> accepts \<open>a/b\<close> and \<open>a/b/c\<close> and rejects \<open>b/a\<close>;
  it also rejects the bare prefix \<open>a\<close>: the expression \<open>a/.*\<close> keeps the slash of the
  pattern, so every topic it accepts starts with \<open>a/\<close>. Among the topics that hold no
  line feed and no carriage return, \<open>a/#\<close> accepts every topic that starts with
  \<open>a/\<close>, and \<open>#\<close> alone accepts every topic. Nothing is stated here about a topic
  that holds a line terminator: there the code departs from the specification, which
  is a defect of the translation and no part of what the filter is meant to do (lemma
  \<open>hash_misses_line_terminators\<close>).
\<close>

theorem hash_matches_the_rest:
  "pattern_matches ''a/#'' ''a/b''
 \<and> pattern_matches ''a/#'' ''a/b/c''
 \<and> \<not> pattern_matches ''a/#'' ''b/a''
 \<and> \<not> pattern_matches ''a/#'' ''a''
 \<and> (\<forall>t. pattern_matches ''a/#'' t \<longrightarrow> (\<exists>r. t = ''a/'' @ r))
 \<and> (\<forall>r. CHR 0x0A \<notin> set r \<and> CHR 0x0D \<notin> set r \<longrightarrow> pattern_matches ''a/#'' (''a/'' @ r))
 \<and> (\<forall>t. CHR 0x0A \<notin> set t \<and> CHR 0x0D \<notin> set t \<longrightarrow> pattern_matches ''#'' t)"
proof -
  have "pattern_matches ''a/#'' ''a/b''" by code_simp
  moreover have "pattern_matches ''a/#'' ''a/b/c''" by code_simp
  moreover have "\<not> pattern_matches ''a/#'' ''b/a''" by code_simp
  moreover have "\<not> pattern_matches ''a/#'' ''a''" by code_simp
  moreover have "\<forall>t. pattern_matches ''a/#'' t \<longrightarrow> (\<exists>r. t = ''a/'' @ r)"
    using a_hash_iff by blast
  moreover have "\<forall>r. CHR 0x0A \<notin> set r \<and> CHR 0x0D \<notin> set r \<longrightarrow> pattern_matches ''a/#'' (''a/'' @ r)"
    using a_hash_iff by blast
  moreover have "\<forall>t. CHR 0x0A \<notin> set t \<and> CHR 0x0D \<notin> set t \<longrightarrow> pattern_matches ''#'' t"
    using hash_iff by blast
  ultimately show ?thesis by blast
qed

theorem hash_matches_the_rest_witness:
  "pattern_matches ''a/#'' ''a/'' \<and> pattern_matches ''a/#'' ''a/b/c''
 \<and> (\<exists>r. ''a/b/c'' = ''a/'' @ r)
 \<and> CHR 0x0A \<notin> set ''sensors/1/temp'' \<and> CHR 0x0D \<notin> set ''sensors/1/temp''
 \<and> pattern_matches ''#'' ''sensors/1/temp''"
proof -
  note h = hash_matches_the_rest
  have "pattern_matches ''a/#'' (''a/'' @ [])" using h by simp
  moreover have "pattern_matches ''#'' ''sensors/1/temp''" using h by simp
  ultimately show ?thesis using h by simp
qed

text \<open>
  C8 as stated fails: the bare prefix \<open>a\<close> does not match \<open>a/#\<close>.
\<close>

theorem hash_requires_the_slash_counterexample:
  "\<not> pattern_matches ''a/#'' ''a''"
  by code_simp

text \<open>
  A defect of \<open>wildcardToRegex\<close>, of the kind of the missing escapes. The
  specification lets \<open>#\<close> stand for any run of characters, so that \<open>#\<close> alone
  matches every topic. The code renders \<open>#\<close> as \<open>.*\<close>, and the dot of an ECMAScript
  expression matches no line terminator: the topic made of \<open>a\<close>, a line feed and
  \<open>b\<close> belongs to the pattern \<open>#\<close> by the specification's matcher and is rejected
  by the code's filter.
\<close>

lemma hash_misses_line_terminators:
  "spec_wildcard_match ''#'' [CHR ''a'', CHR 0x0A, CHR ''b'']
 \<and> \<not> pattern_matches ''#'' [CHR ''a'', CHR 0x0A, CHR ''b'']"
proof -
  have "spec_wildcard_match ''#'' [CHR ''a'', CHR 0x0A, CHR ''b'']" by code_simp
  moreover have "\<not> pattern_matches ''#'' [CHR ''a'', CHR 0x0A, CHR ''b'']" by code_simp
  ultimately show ?thesis by simp
qed

text \<open>
  C9 on the code. \<open>wildcardToRegex\<close> does not escape the question mark, so in
  \<open>a?b/+\<close> it makes the letter \<open>a\<close> optional: the topic \<open>a?b/x\<close>, whose first
  segment is the literal one, is rejected, and \<open>b/x\<close> and \<open>ab/x\<close> are accepted.
\<close>

theorem question_mark_is_not_escaped:
  "wildcardToRegex ''a?b/+'' = ''a?b/[^/]+''
 \<and> \<not> pattern_matches ''a?b/+'' ''a?b/x''
 \<and> pattern_matches ''a?b/+'' ''b/x''
 \<and> pattern_matches ''a?b/+'' ''ab/x''"
proof -
  have "wildcardToRegex ''a?b/+'' = ''a?b/[^/]+''" by code_simp
  moreover have "\<not> pattern_matches ''a?b/+'' ''a?b/x''" by code_simp
  moreover have "pattern_matches ''a?b/+'' ''b/x''" by code_simp
  moreover have "pattern_matches ''a?b/+'' ''ab/x''" by code_simp
  ultimately show ?thesis by simp
qed

text \<open>
  What the characters that \<open>wildcardToRegex\<close> leaves unescaped do to a pattern. A
  closing brace that closes nothing is a literal: \<open>a}/+\<close> accepts \<open>a}/x\<close>.
  Quantifiers stack: \<open>+{2}\<close> becomes \<open>[^/]+{2}\<close>, two runs of characters other than
  the slash; \<open>+??\<close> becomes \<open>[^/]+??\<close>, a non-greedy \<open>+\<close> made optional; in
  \<open>a?{2}/+\<close> the optional \<open>a\<close> is taken twice.
\<close>

lemma library_readings:
  "pattern_matches ''a}/+'' ''a}/x''
 \<and> pattern_matches ''+{2}'' ''ab'' \<and> \<not> pattern_matches ''+{2}'' ''a''
 \<and> pattern_matches ''+??'' ''ab'' \<and> pattern_matches ''+??'' []
 \<and> pattern_matches ''a?{2}/+'' ''aa/x'' \<and> pattern_matches ''a?{2}/+'' ''/x''
 \<and> \<not> pattern_matches ''a?{2}/+'' ''aaa/x''"
proof -
  have "pattern_matches ''a}/+'' ''a}/x''" by code_simp
  moreover have "pattern_matches ''+{2}'' ''ab''" by code_simp
  moreover have "\<not> pattern_matches ''+{2}'' ''a''" by code_simp
  moreover have "pattern_matches ''+??'' ''ab''" by code_simp
  moreover have "pattern_matches ''+??'' []" by code_simp
  moreover have "pattern_matches ''a?{2}/+'' ''aa/x''" by code_simp
  moreover have "pattern_matches ''a?{2}/+'' ''/x''" by code_simp
  moreover have "\<not> pattern_matches ''a?{2}/+'' ''aaa/x''" by code_simp
  ultimately show ?thesis by simp
qed

text \<open>
  A counted quantifier can push the automaton over the state limit: for the pattern
  \<open>a{100001}/+\<close> the constructor of \<open>std::regex\<close> throws, and no filter comes into
  being.
\<close>

lemma decimal_example: "decimal ''100001'' = 100001"
  by (simp add: decimal_def)

lemma parse_braces_example:
  "parse_braces ''100001}/[^/]+'' = Some (Braces 100001 (Some 100001), ''/[^/]+'')"
  by (simp add: parse_braces_def is_digit_def decimal_example Let_def)

lemma parse_quantifier_example:
  "parse_quantifier ''{100001}/[^/]+'' = Quantifier (Braces 100001 (Some 100001)) ''/[^/]+''"
  "parse_quantifier ''/[^/]+'' = No_quantifier"
  "parse_quantifier ''[^/]+'' = No_quantifier"
  "parse_quantifier ''+'' = Quantifier Plus []"
  "parse_quantifier [] = No_quantifier"
  by (simp_all add: parse_quantifier_def parse_braces_example skip_lazy_def)

lemma parse_quantifiers_example:
  "parse_quantifiers ''{100001}/[^/]+'' [] = Some ([Braces 100001 (Some 100001)], ''/[^/]+'')"
  "parse_quantifiers ''[^/]+'' [] = Some ([], ''[^/]+'')"
  "parse_quantifiers ''+'' [] = Some ([Plus], [])"
  by (simp_all add: parse_quantifiers.simps [of "''{100001}/[^/]+''"]
      parse_quantifiers.simps [of "''/[^/]+''"] parse_quantifiers.simps [of "''[^/]+''"]
      parse_quantifiers.simps [of "''+''"] parse_quantifiers.simps [of "[]"]
      parse_quantifier_example)

lemma parse_regex_example:
  "parse_regex ''a{100001}/[^/]+''
     = Some [ [Rep (Chr CHR ''a'') [Braces 100001 (Some 100001)], Rep (Chr CHR ''/'') [],
               Rep NotSlash [Plus]] ]"
  by (simp add: parse_quantifiers_example no_atom_chars_def backslash_def)

lemma wildcardToRegex_example: "wildcardToRegex ''a{100001}/+'' = ''a{100001}/[^/]+''"
  by (simp add: backslash_def)

lemma nfa_states_example:
  "nfa_states [ [Rep (Chr CHR ''a'') [Braces 100001 (Some 100001)], Rep (Chr CHR ''/'') [],
                 Rep NotSlash [Plus]] ] = 100011"
  by (simp add: nfa_states_def)

lemma regex_compile_example: "regex_compile (wildcardToRegex ''a{100001}/+'') = None"
  unfolding wildcardToRegex_example regex_compile_def parse_regex_example
  by (simp add: nfa_states_example state_limit_def)

lemma state_limit_exceeded:
  "TopicFilterFactory_create ''a{100001}/+'' = None
 \<and> (\<forall>t. \<not> pattern_matches ''a{100001}/+'' t)"
  unfolding pattern_matches_def TopicFilterFactory_create_def regex_compile_example
  by (simp add: has_wildcards_def)

section \<open>Properties of a subscription\<close>

lemma unat_SIZE_MAX: "unat SIZE_MAX = 2 ^ 64 - 1"
  by (simp add: SIZE_MAX_def unsigned_minus_1_eq_mask mask_eq_exp_minus_1)

lemma unat_inc: "c < n \<Longrightarrow> unat (c + 1) = Suc (unat c)"
  for c n :: size_t
  by unat_arith

lemma unat_inc_below_max: "c \<noteq> SIZE_MAX \<Longrightarrow> unat (c + 1) = Suc (unat c)"
proof -
  assume "c \<noteq> SIZE_MAX"
  then have "c < SIZE_MAX" by (simp add: SIZE_MAX_def word_order.not_eq_extremum)
  then show ?thesis by (rule unat_inc)
qed

lemma unat_add_of_nat:
  fixes a :: size_t
  assumes "unat a + n \<le> unat SIZE_MAX"
  shows "unat (a + of_nat n) = unat a + n"
proof -
  have n: "n < 2 ^ 64" using assms by (simp add: unat_SIZE_MAX)
  then have u: "unat (of_nat n :: size_t) = n" by (simp add: unat_of_nat)
  have "unat a + unat (of_nat n :: size_t) < 2 ^ LENGTH(64)"
    using assms u by (simp add: unat_SIZE_MAX)
  then show ?thesis using u by (simp add: unat_add_lem [THEN iffD1])
qed

lemma deliver_cases:
  "deliver s m =
     (if \<not> active s then (Rejected, s, [])
      else if \<not> sub_matches s (msg_topic m) then (Filtered, s, [])
      else if max_messages (options s) > 0 \<and> message_count s \<ge> max_messages (options s)
        then (Rejected, s, [])
      else if callback s m = Throws
        then (Error, s\<lparr>message_count := message_count s + 1\<rparr>, [m])
      else (Success, s\<lparr>message_count := message_count s + 1\<rparr>, [m]))"
  by (simp add: deliver_def is_active_def acknowledge_def Let_def split: callback_outcome.split)

lemma deliver_keeps:
  assumes "deliver s m = (r, s', calls)"
  shows "active s' = active s" "sub_filter s' = sub_filter s" "options s' = options s"
    "callback s' = callback s" "sub_id s' = sub_id s"
  using assms by (auto simp: deliver_cases split: if_splits)

lemma sub_matches_keeps:
  "deliver s m = (r, s', calls) \<Longrightarrow> sub_matches s' t = sub_matches s t"
  by (simp add: sub_matches_def deliver_keeps(2))

lemma deliver_inactive: "\<not> active s \<Longrightarrow> deliver s m = (Rejected, s, [])"
  by (simp add: deliver_cases)

lemma sub_step_inactive: "\<not> active s \<Longrightarrow> sub_step s op = s"
  by (cases op) (simp_all add: deliver_inactive acknowledge_def cancel_def)

lemma steps_inactive: "\<not> active s \<Longrightarrow> foldl sub_step s ops = s"
  by (induction ops) (simp_all add: sub_step_inactive)

lemma deliver_seq_limit:
  assumes "active s" "\<forall>m\<in>set ms. sub_matches s (msg_topic m)"
    "max_messages (options s) = n" "0 < n" "message_count s \<le> n"
    "deliver_seq s ms = (rs, s')"
  shows "unat (message_count s') = min (unat n) (unat (message_count s) + length ms)
       \<and> length rs = length ms
       \<and> (\<forall>k<length ms. (rs ! k = Rejected) = (unat n \<le> unat (message_count s) + k))
       \<and> active s'"
  using assms
proof (induction ms arbitrary: s rs)
  case Nil
  then show ?case by (simp add: word_le_nat_alt)
next
  case (Cons m ms)
  obtain r s1 calls where d: "deliver s m = (r, s1, calls)" by (metis prod_cases3)
  obtain rs1 s2 where q: "deliver_seq s1 ms = (rs1, s2)" by (metis surj_pair)
  from Cons.prems(6) d q have rs: "rs = r # rs1" and s2: "s' = s2" by auto
  have k: "active s1" "options s1 = options s" "\<forall>m\<in>set ms. sub_matches s1 (msg_topic m)"
    using deliver_keeps [OF d] sub_matches_keeps [OF d] Cons.prems by auto
  have m: "sub_matches s (msg_topic m)" using Cons.prems(2) by simp
  have le: "unat (message_count s) \<le> unat n" using Cons.prems(5) by (simp add: word_le_nat_alt)
  show ?case
  proof (cases "n \<le> message_count s")
    case True
    then have full: "unat n \<le> unat (message_count s)" by (simp add: word_le_nat_alt)
    from True Cons.prems m d have r: "r = Rejected" and s1: "s1 = s"
      by (auto simp: deliver_cases)
    from Cons.IH [of s1 rs1] k Cons.prems q s1 s2
    have ih: "unat (message_count s') = min (unat n) (unat (message_count s) + length ms)"
      "length rs1 = length ms"
      "\<forall>k<length ms. (rs1 ! k = Rejected) = (unat n \<le> unat (message_count s) + k)" "active s'"
      by auto
    have "(rs ! k = Rejected) = (unat n \<le> unat (message_count s) + k)" if "k < length (m # ms)" for k
      using that ih(3) full r rs by (cases k) auto
    with ih full le rs show ?thesis by auto
  next
    case False
    then have less: "message_count s < n" by simp
    then have notfull: "\<not> unat n \<le> unat (message_count s)" by (simp add: word_less_nat_alt)
    from False Cons.prems m d have r: "r \<noteq> Rejected"
      and c1: "message_count s1 = message_count s + 1"
      by (auto simp: deliver_cases split: if_splits)
    have u1: "unat (message_count s1) = Suc (unat (message_count s))"
      unfolding c1 using less by (rule unat_inc)
    have le1: "message_count s1 \<le> n" unfolding c1 using less by (rule inc_le)
    have n1: "max_messages (options s1) = n" using k(2) Cons.prems(3) by simp
    have q1: "deliver_seq s1 ms = (rs1, s')" using q s2 by simp
    from Cons.IH [OF k(1) k(3) n1 Cons.prems(4) le1 q1] u1
    have ih: "unat (message_count s') = min (unat n) (Suc (unat (message_count s)) + length ms)"
      "length rs1 = length ms"
      "\<forall>k<length ms. (rs1 ! k = Rejected) = (unat n \<le> Suc (unat (message_count s)) + k)" "active s'"
      by auto
    have "(rs ! k = Rejected) = (unat n \<le> unat (message_count s) + k)" if "k < length (m # ms)" for k
      using that ih(3) notfull r rs by (cases k) auto
    with ih rs show ?thesis by auto
  qed
qed

lemma deliver_seq_results:
  assumes "active s" "\<forall>m\<in>set ms. sub_matches s (msg_topic m)" "deliver_seq s ms = (rs, s')"
  shows "\<forall>r\<in>set rs. r = Success \<or> r = Error \<or> r = Rejected"
  using assms
proof (induction ms arbitrary: s rs)
  case Nil
  then show ?case by simp
next
  case (Cons m ms)
  obtain r s1 calls where d: "deliver s m = (r, s1, calls)" by (metis prod_cases3)
  obtain rs1 s2 where q: "deliver_seq s1 ms = (rs1, s2)" by (metis surj_pair)
  from Cons.prems(3) d q have rs: "rs = r # rs1" and s2: "s' = s2" by auto
  have k: "active s1" "\<forall>m\<in>set ms. sub_matches s1 (msg_topic m)"
    using deliver_keeps [OF d] sub_matches_keeps [OF d] Cons.prems by auto
  have "r = Success \<or> r = Error \<or> r = Rejected"
    using d Cons.prems(1,2) by (auto simp: deliver_cases split: if_splits)
  with Cons.IH [OF k] q s2 rs show ?case by auto
qed

text \<open>
  C4. On an active subscription \<open>deliver\<close> returns \<open>Filtered\<close>, with no call to the
  callback, when the topic does not match; past that check it returns \<open>Rejected\<close>, with
  no call to the callback, when \<open>max_messages\<close> is positive and reached; at the ceiling no call reaches the
  callback or changes the subscription, whatever the topic. So a new
  subscription with \<open>max_messages = 3\<close> that is handed matching messages one after the
  other takes the first three (each ends in \<open>Success\<close> or \<open>Error\<close>), rejects the fourth
  and every later one, and its \<open>message_count\<close> ends at 3.
\<close>

theorem deliver_filtered_and_limit:
  "(is_active s \<and> \<not> sub_matches s (msg_topic m) \<longrightarrow> deliver s m = (Filtered, s, []))
 \<and> (is_active s \<and> sub_matches s (msg_topic m) \<and> 0 < max_messages (options s)
      \<and> max_messages (options s) \<le> message_count s \<longrightarrow> deliver s m = (Rejected, s, []))
 \<and> (is_active s \<and> 0 < max_messages (options s) \<and> max_messages (options s) \<le> message_count s
      \<longrightarrow> snd (deliver s m) = (s, []))
 \<and> (max_messages opts = 3 \<and> (\<forall>x\<in>set ms. filter_matches f (msg_topic x)) \<and> 4 \<le> length ms
      \<and> deliver_seq (Subscription_new i f cb opts) ms = (rs, s')
     \<longrightarrow> rs ! 3 = Rejected \<and> (\<forall>k<3. rs ! k = Success \<or> rs ! k = Error)
         \<and> (\<forall>k<length ms. 3 \<le> k \<longrightarrow> rs ! k = Rejected) \<and> message_count s' = 3)"
proof (intro conjI impI)
  assume "is_active s \<and> \<not> sub_matches s (msg_topic m)"
  then show "deliver s m = (Filtered, s, [])" by (simp add: deliver_cases is_active_def)
next
  assume "is_active s \<and> sub_matches s (msg_topic m) \<and> 0 < max_messages (options s)
      \<and> max_messages (options s) \<le> message_count s"
  then show "deliver s m = (Rejected, s, [])" by (simp add: deliver_cases is_active_def)
next
  assume "is_active s \<and> 0 < max_messages (options s) \<and> max_messages (options s) \<le> message_count s"
  then show "snd (deliver s m) = (s, [])" by (simp add: deliver_cases is_active_def)
next
  let ?s = "Subscription_new i f cb opts"
  assume a: "max_messages opts = 3 \<and> (\<forall>x\<in>set ms. filter_matches f (msg_topic x)) \<and> 4 \<le> length ms
      \<and> deliver_seq ?s ms = (rs, s')"
  have pre: "active ?s" "\<forall>x\<in>set ms. sub_matches ?s (msg_topic x)" "max_messages (options ?s) = 3"
    "(0::size_t) < 3" "message_count ?s \<le> 3"
    using a by (simp_all add: Subscription_new_def sub_matches_def)
  have zero: "unat (message_count ?s) = 0" by (simp add: Subscription_new_def)
  from deliver_seq_limit [OF pre, of rs s'] a zero
  have lim: "unat (message_count s') = min 3 (length ms)" "length rs = length ms"
    "\<forall>k<length ms. (rs ! k = Rejected) = (3 \<le> k)"
    by auto
  show "rs ! 3 = Rejected" using lim(3) a by auto
  show "\<forall>k<length ms. 3 \<le> k \<longrightarrow> rs ! k = Rejected" using lim(3) by auto
  have "unat (message_count s') = unat (3 :: size_t)" using lim(1) a by auto
  then show "message_count s' = 3" by (simp only: word_unat_eq_iff)
  have "\<forall>r\<in>set rs. r = Success \<or> r = Error \<or> r = Rejected"
    using deliver_seq_results [of ?s ms rs s'] a pre(1,2) by blast
  then have "rs ! k = Success \<or> rs ! k = Error \<or> rs ! k = Rejected" if "k < 3" for k
    using that a lim(2) by simp
  then show "\<forall>k<3. rs ! k = Success \<or> rs ! k = Error" using lim(3) a by auto
qed

theorem deliver_filtered_and_limit_witness:
  "deliver (example_subscription ''sub_0'' ''a'' Returns 3) (example_message ''b'' Normal)
     = (Filtered, example_subscription ''sub_0'' ''a'' Returns 3, [])
 \<and> deliver ((example_subscription ''sub_0'' ''a'' Returns 3)\<lparr>message_count := 3\<rparr>)
        (example_message ''a'' Normal)
     = (Rejected, (example_subscription ''sub_0'' ''a'' Returns 3)\<lparr>message_count := 3\<rparr>, [])
 \<and> fst (deliver_seq (example_subscription ''sub_0'' ''a'' Returns 3)
        (replicate 4 (example_message ''a'' Normal)))
     = [Success, Success, Success, Rejected]
 \<and> message_count (snd (deliver_seq (example_subscription ''sub_0'' ''a'' Returns 3)
        (replicate 4 (example_message ''a'' Normal)))) = 3"
proof -
  let ?s = "example_subscription ''sub_0'' ''a'' Returns 3" and ?m = "example_message ''a'' Normal"
  have four: "replicate 4 ?m = [?m, ?m, ?m, ?m]" by (simp add: numeral_eq_Suc)
  have one: "\<not> (3 :: size_t) \<le> 1" by (simp add: word_le_nat_alt)
  have seq: "deliver_seq ?s (replicate 4 ?m)
      = ([Success, Success, Success, Rejected], ?s\<lparr>message_count := 3\<rparr>)"
    unfolding four
    by (simp add: one deliver_cases example_subscription_def Subscription_new_def
        example_options_def example_message_def sub_matches_def)
  have f: "deliver ?s (example_message ''b'' Normal) = (Filtered, ?s, [])"
    using deliver_filtered_and_limit [where s = ?s and m = "example_message ''b'' Normal"]
    by (simp add: is_active_def sub_matches_def example_subscription_def Subscription_new_def
        example_message_def)
  have r: "deliver (?s\<lparr>message_count := 3\<rparr>) ?m = (Rejected, ?s\<lparr>message_count := 3\<rparr>, [])"
    using deliver_filtered_and_limit [where s = "?s\<lparr>message_count := 3\<rparr>" and m = ?m]
    by (simp add: is_active_def sub_matches_def example_subscription_def Subscription_new_def
        example_message_def example_options_def)
  from f r seq show ?thesis by simp
qed

text \<open>
  C5, as the code has it. The counter is incremented before the callback runs, so a call
  to \<open>deliver\<close> adds one to \<open>message_count\<close>, in the arithmetic of \<open>size_t\<close>, when it
  returns \<open>Success\<close> or \<open>Error\<close> (the two results reached after the callback was
  called) and leaves it unchanged when it returns \<open>Rejected\<close> or \<open>Filtered\<close>;
  \<open>Timeout\<close> is never returned. As long as the counter is not at \<open>SIZE_MAX\<close>, which
  it never is at an increment when \<open>max_messages\<close> is positive, the counter does not
  decrease and the increment is by exactly one.
\<close>

theorem deliver_count:
  assumes "deliver s m = (r, s', calls)"
  shows "(r = Success \<or> r = Error \<longrightarrow> message_count s' = message_count s + 1 \<and> calls = [m])
       \<and> (r = Rejected \<or> r = Filtered \<longrightarrow> message_count s' = message_count s \<and> calls = [])
       \<and> r \<noteq> Timeout
       \<and> (message_count s \<noteq> SIZE_MAX \<or> 0 < max_messages (options s) \<longrightarrow>
            message_count s \<le> message_count s'
            \<and> (r = Success \<or> r = Error \<longrightarrow>
                 unat (message_count s') = unat (message_count s) + 1))"
proof -
  have a: "r = Success \<or> r = Error \<longrightarrow> message_count s' = message_count s + 1 \<and> calls = [m]"
    and b: "r = Rejected \<or> r = Filtered \<longrightarrow> message_count s' = message_count s \<and> calls = []"
    and c: "r \<noteq> Timeout"
    using assms by (auto simp: deliver_cases split: if_splits)
  have d: "message_count s \<le> message_count s'
            \<and> (r = Success \<or> r = Error \<longrightarrow> unat (message_count s') = unat (message_count s) + 1)"
    if h: "message_count s \<noteq> SIZE_MAX \<or> 0 < max_messages (options s)"
  proof (cases "r = Success \<or> r = Error")
    case False
    with assms have "message_count s' = message_count s"
      by (auto simp: deliver_cases split: if_splits)
    with False show ?thesis by simp
  next
    case True
    with a have s': "message_count s' = message_count s + 1" by simp
    have "message_count s \<noteq> SIZE_MAX"
    proof (cases "0 < max_messages (options s)")
      case False
      with h show ?thesis by simp
    next
      case pos: True
      from True assms pos have "message_count s < max_messages (options s)"
        by (auto simp: deliver_cases split: if_splits)
      then show ?thesis by (auto simp: SIZE_MAX_def)
    qed
    then have u: "unat (message_count s + 1) = Suc (unat (message_count s))"
      by (rule unat_inc_below_max)
    then have "message_count s \<le> message_count s + 1" by (simp add: word_le_nat_alt)
    with u s' show ?thesis by simp
  qed
  from a b c d show ?thesis by blast
qed

theorem deliver_count_witness:
  "deliver (example_subscription ''sub_0'' ''a'' Throws 0) (example_message ''a'' Normal)
     = (Error, (example_subscription ''sub_0'' ''a'' Throws 0)\<lparr>message_count := 1\<rparr>,
        [example_message ''a'' Normal])
 \<and> message_count (example_subscription ''sub_0'' ''a'' Throws 0) \<noteq> SIZE_MAX
 \<and> message_count ((example_subscription ''sub_0'' ''a'' Throws 0)\<lparr>message_count := 1\<rparr>)
     = message_count (example_subscription ''sub_0'' ''a'' Throws 0) + 1
 \<and> unat (message_count ((example_subscription ''sub_0'' ''a'' Throws 0)\<lparr>message_count := 1\<rparr>))
     = unat (message_count (example_subscription ''sub_0'' ''a'' Throws 0)) + 1"
proof -
  have d: "deliver (example_subscription ''sub_0'' ''a'' Throws 0) (example_message ''a'' Normal)
     = (Error, (example_subscription ''sub_0'' ''a'' Throws 0)\<lparr>message_count := 1\<rparr>,
        [example_message ''a'' Normal])"
    by (simp add: deliver_cases example_subscription_def Subscription_new_def sub_matches_def
        example_message_def example_options_def)
  have n: "message_count (example_subscription ''sub_0'' ''a'' Throws 0) \<noteq> SIZE_MAX"
    by (simp add: example_subscription_def Subscription_new_def SIZE_MAX_def)
  from deliver_count [OF d] d n show ?thesis by simp
qed

text \<open>
  C5 as stated fails: a callback that throws makes \<open>deliver\<close> return \<open>Error\<close> with
  \<open>message_count\<close> gone from 0 to 1.
\<close>

theorem error_increments_message_count:
  "fst (deliver (example_subscription ''sub_0'' ''a'' Throws 0) (example_message ''a'' Normal)) = Error
 \<and> message_count (example_subscription ''sub_0'' ''a'' Throws 0) = 0
 \<and> message_count (fst (snd (deliver (example_subscription ''sub_0'' ''a'' Throws 0)
        (example_message ''a'' Normal)))) = 1"
  by (simp add: deliver_cases example_subscription_def Subscription_new_def sub_matches_def
        example_message_def example_options_def)

text \<open>
  Without a ceiling (\<open>max_messages = 0\<close>) the counter wraps: a delivery with
  \<open>message_count\<close> at \<open>SIZE_MAX\<close> leaves it at 0.
\<close>

lemma message_count_wraps:
  "deliver ((example_subscription ''sub_0'' ''a'' Returns 0)\<lparr>message_count := SIZE_MAX\<rparr>)
      (example_message ''a'' Normal)
     = (Success, (example_subscription ''sub_0'' ''a'' Returns 0)\<lparr>message_count := 0\<rparr>,
        [example_message ''a'' Normal])"
  by (simp add: deliver_cases example_subscription_def Subscription_new_def sub_matches_def
        example_message_def example_options_def SIZE_MAX_def)

text \<open>
  C6. After \<open>cancel\<close>, whatever operations follow (\<open>deliver\<close>, \<open>acknowledge\<close>,
  \<open>cancel\<close>), the subscription is still inactive and its \<open>message_count\<close> is the one
  it had; a further \<open>deliver\<close> returns \<open>Rejected\<close>, calls no callback and changes
  nothing.
\<close>

theorem cancelled_is_terminal:
  "\<not> active (foldl sub_step (cancel s) ops)
   \<and> message_count (foldl sub_step (cancel s) ops) = message_count s
   \<and> deliver (foldl sub_step (cancel s) ops) m = (Rejected, foldl sub_step (cancel s) ops, [])"
proof -
  have c: "\<not> active (cancel s)" by (simp add: cancel_def)
  then have "foldl sub_step (cancel s) ops = cancel s" by (rule steps_inactive)
  with c show ?thesis by (simp add: deliver_inactive) (simp add: cancel_def)
qed

section \<open>Properties of the broker\<close>

lemma publish_cases:
  "publish b t m =
     (if \<not> running b then (False, b)
      else if max_queue_size (config b) > 0
              \<and> length (message_queue b) \<ge> unat (max_queue_size (config b))
        then (False, b\<lparr>published_messages := published_messages b + 1\<rparr>)
      else (True, b\<lparr>published_messages := published_messages b + 1,
                     message_queue := message_queue b @ [m]\<rparr>))"
  by (simp add: publish_def Let_def)

lemma publish_seq_bounded:
  assumes "running b" "unat (max_queue_size (config b)) = K" "0 < K"
    "length (message_queue b) \<le> K" "publish_seq b tms = (oks, b')"
  shows "oks = replicate (min (K - length (message_queue b)) (length tms)) True
              @ replicate (length tms - (K - length (message_queue b))) False
       \<and> published_messages b' = published_messages b + of_nat (length tms)
       \<and> message_queue b' = message_queue b @ map snd (take (K - length (message_queue b)) tms)"
  using assms
proof (induction tms arbitrary: b oks)
  case Nil
  then show ?case by simp
next
  case (Cons tm tms)
  obtain t m where tm: "tm = (t, m)" by (cases tm)
  obtain ok b1 where p: "publish b t m = (ok, b1)" by (cases "publish b t m")
  from Cons.prems(5) tm p obtain oks1 where q: "publish_seq b1 tms = (oks1, b')"
    and oks: "oks = ok # oks1"
    by (auto split: prod.splits)
  have pos: "0 < max_queue_size (config b)"
    using Cons.prems(2,3) by (simp add: word_greater_zero_iff unat_eq_0 [symmetric])
  show ?case
  proof (cases "length (message_queue b) < K")
    case True
    with p Cons.prems(1,2) have ok: "ok = True"
      and b1: "b1 = b\<lparr>published_messages := published_messages b + 1,
                       message_queue := message_queue b @ [m]\<rparr>"
      by (auto simp: publish_cases)
    have pre: "running b1" "unat (max_queue_size (config b1)) = K" "length (message_queue b1) \<le> K"
      using b1 Cons.prems True by auto
    from Cons.IH [OF pre(1,2) Cons.prems(3) pre(3) q]
    have ih: "oks1 = replicate (min (K - length (message_queue b1)) (length tms)) True
              @ replicate (length tms - (K - length (message_queue b1))) False"
      "published_messages b' = published_messages b1 + of_nat (length tms)"
      "message_queue b' = message_queue b1 @ map snd (take (K - length (message_queue b1)) tms)"
      by auto
    have l1: "length (message_queue b1) = Suc (length (message_queue b))" by (simp add: b1)
    obtain d where d: "K - length (message_queue b) = Suc d" using True by (metis Suc_diff_Suc)
    then have d1: "K - length (message_queue b1) = d" using l1 by simp
    show ?thesis
      unfolding oks ok ih d d1 tm by (simp add: b1 algebra_simps)
  next
    case False
    with Cons.prems have full: "length (message_queue b) = K" by simp
    with p Cons.prems(1,2) pos have ok: "ok = False"
      and b1: "b1 = b\<lparr>published_messages := published_messages b + 1\<rparr>"
      by (auto simp: publish_cases)
    have pre: "running b1" "unat (max_queue_size (config b1)) = K" "length (message_queue b1) \<le> K"
      using b1 Cons.prems by auto
    from Cons.IH [OF pre(1,2) Cons.prems(3) pre(3) q]
    have ih: "oks1 = replicate (min (K - length (message_queue b1)) (length tms)) True
              @ replicate (length tms - (K - length (message_queue b1))) False"
      "published_messages b' = published_messages b1 + of_nat (length tms)"
      "message_queue b' = message_queue b1 @ map snd (take (K - length (message_queue b1)) tms)"
      by auto
    show ?thesis
      unfolding oks ok ih by (simp add: b1 full algebra_simps)
  qed
qed

lemma deliver_each_log:
  assumes "distinct ks" "set ks \<subseteq> fst ` set (subscriptions b)"
    "deliver_each m ks b log = (b', log')"
  shows "log' = log @ map (\<lambda>k. (k, fst (deliver (the (map_of (subscriptions b) k)) m))) ks
       \<and> delivered_messages b' = delivered_messages b
            + of_nat (length (filter (\<lambda>k. fst (deliver (the (map_of (subscriptions b) k)) m) = Success) ks))
       \<and> map fst (subscriptions b') = map fst (subscriptions b)
       \<and> (\<forall>k. map_of (subscriptions b') k =
              (if k \<in> set ks
               then map_option (\<lambda>s. fst (snd (deliver s m))) (map_of (subscriptions b) k)
               else map_of (subscriptions b) k))
       \<and> message_queue b' = message_queue b \<and> published_messages b' = published_messages b
       \<and> running b' = running b \<and> config b' = config b"
  using assms
proof (induction ks arbitrary: b log)
  case Nil
  then show ?case by simp
next
  case (Cons k ks)
  from Cons.prems(2) obtain s where s: "map_of (subscriptions b) k = Some s"
    by (metis list.set_intros(1) map_of_eq_None_iff not_Some_eq subsetD)
  obtain r s1 calls where d: "deliver s m = (r, s1, calls)" by (metis prod_cases3)
  define b2 where "b2 = (if r = Success
      then b\<lparr>subscriptions := AList.update k s1 (subscriptions b),
              delivered_messages := delivered_messages b + 1\<rparr>
      else b\<lparr>subscriptions := AList.update k s1 (subscriptions b)\<rparr>)"
  have step: "deliver_each m ks b2 (log @ [(k, r)]) = (b', log')"
    using Cons.prems(3) s d by (auto simp: b2_def Let_def split: if_splits)
  have subs2: "subscriptions b2 = AList.update k s1 (subscriptions b)"
    by (simp add: b2_def)
  have kin: "k \<in> fst ` set (subscriptions b)" using Cons.prems(2) by simp
  have keys2: "map fst (subscriptions b2) = map fst (subscriptions b)"
    using kin by (simp add: subs2 update_keys)
  have look2: "map_of (subscriptions b2) = (map_of (subscriptions b))(k \<mapsto> s1)"
    by (simp add: subs2 update_conv')
  have knot: "k \<notin> set ks" and dist: "distinct ks" using Cons.prems(1) by auto
  have same: "map_of (subscriptions b2) j = map_of (subscriptions b) j" if "j \<in> set ks" for j
    using that knot by (auto simp: look2)
  have sub2: "set ks \<subseteq> fst ` set (subscriptions b2)"
    using Cons.prems(2) keys2 by (metis list.set_map set_subset_Cons subset_trans)
  note ih = Cons.IH [OF dist sub2 step]
  have del2: "delivered_messages b2 = delivered_messages b + (if r = Success then 1 else 0)"
    by (simp add: b2_def)
  have other2: "message_queue b2 = message_queue b" "published_messages b2 = published_messages b"
    "running b2 = running b" "config b2 = config b"
    by (simp_all add: b2_def)
  have r: "fst (deliver (the (map_of (subscriptions b) k)) m) = r" using s d by simp
  have maps: "map (\<lambda>j. (j, fst (deliver (the (map_of (subscriptions b2) j)) m))) ks
            = map (\<lambda>j. (j, fst (deliver (the (map_of (subscriptions b) j)) m))) ks"
    using same by simp
  have filts: "filter (\<lambda>j. fst (deliver (the (map_of (subscriptions b2) j)) m) = Success) ks
             = filter (\<lambda>j. fst (deliver (the (map_of (subscriptions b) j)) m) = Success) ks"
    using same by (auto intro: filter_cong)
  have c1: "log' = log @ map (\<lambda>k. (k, fst (deliver (the (map_of (subscriptions b) k)) m))) (k # ks)"
    using ih maps r by simp
  have c2: "delivered_messages b' = delivered_messages b
      + of_nat (length (filter (\<lambda>k. fst (deliver (the (map_of (subscriptions b) k)) m) = Success) (k # ks)))"
    using ih filts r del2 by (simp add: algebra_simps)
  have c3: "map fst (subscriptions b') = map fst (subscriptions b)"
    using ih keys2 by simp
  have c4: "map_of (subscriptions b') j =
              (if j \<in> set (k # ks)
               then map_option (\<lambda>s. fst (snd (deliver s m))) (map_of (subscriptions b) j)
               else map_of (subscriptions b) j)" for j
  proof (cases "j = k")
    case True
    with knot ih have "map_of (subscriptions b') j = map_of (subscriptions b2) k" by simp
    with True s d show ?thesis by (simp add: look2)
  next
    case False
    with ih have "map_of (subscriptions b') j =
              (if j \<in> set ks
               then map_option (\<lambda>s. fst (snd (deliver s m))) (map_of (subscriptions b2) j)
               else map_of (subscriptions b2) j)" by simp
    with False show ?thesis by (simp add: look2)
  qed
  from c1 c2 c3 c4 ih other2 show ?case by simp
qed

lemma find_matching_distinct:
  "distinct (map fst (subscriptions b)) \<Longrightarrow> distinct (find_matching b m)"
  unfolding find_matching_def by (rule distinct_map_filter)

lemma find_matching_subset: "set (find_matching b m) \<subseteq> fst ` set (subscriptions b)"
  by (auto simp: find_matching_def)

lemma find_matching_iff:
  assumes "distinct (map fst (subscriptions b))"
  shows "k \<in> set (find_matching b m)
     \<longleftrightarrow> (\<exists>s. map_of (subscriptions b) k = Some s \<and> sub_matches s (msg_topic m))"
  using assms by (force simp: find_matching_def)


lemma process_message_log:
  assumes "distinct (map fst (subscriptions b))" "process_message b m = (b', log)"
  shows "log = map (\<lambda>k. (k, fst (deliver (the (map_of (subscriptions b) k)) m))) (find_matching b m)"
    and "delivered_messages b' = delivered_messages b
            + of_nat (length (filter (\<lambda>k. fst (deliver (the (map_of (subscriptions b) k)) m) = Success)
                 (find_matching b m)))"
    and "map_of (subscriptions b') k =
              (if k \<in> set (find_matching b m)
               then map_option (\<lambda>s. fst (snd (deliver s m))) (map_of (subscriptions b) k)
               else map_of (subscriptions b) k)"
  using deliver_each_log [OF find_matching_distinct [OF assms(1)] find_matching_subset, of m m "[]" b' log]
    assms(2)
  by (simp_all add: process_message_def)

lemma example_process:
  "process_message (example_broker 0 example_registry) (example_message ''a'' Normal) =
     ((example_broker 0 example_registry)
        \<lparr>delivered_messages := 1,
         subscriptions :=
           [(''sub_0'', (example_subscription ''sub_0'' ''a'' Returns 0)\<lparr>message_count := 1\<rparr>),
            (''sub_1'', example_subscription ''sub_1'' ''b'' Returns 0),
            (''sub_2'', (example_subscription ''sub_2'' ''a'' Throws 0)\<lparr>message_count := 1\<rparr>)]\<rparr>,
      [(''sub_0'', Success), (''sub_2'', Error)])"
  by (simp add: process_message_def find_matching_def example_broker_def example_registry_def
      example_subscription_def Subscription_new_def example_options_def example_message_def
      sub_matches_def deliver_cases)

lemma example_publish:
  "publish_seq (example_broker 2 [])
     [(''t'', example_message ''t'' Critical), (''t'', example_message ''t'' Low),
      (''t'', example_message ''t'' High)]
   = ([True, True, False],
      (example_broker 2 [])\<lparr>published_messages := 3,
         message_queue := [example_message ''t'' Critical, example_message ''t'' Low]\<rparr>)"
  by (simp add: publish_cases example_broker_def)

text \<open>
  C1, as the code has it. On a running broker with \<open>max_queue_size = K > 0\<close>, an empty
  queue and no worker, \<open>N > K\<close> publishes in a row return true for the first \<open>K\<close> and
  false for the other \<open>N - K\<close>, whatever the priorities of the messages; the queue then
  holds the first \<open>K\<close> messages. \<open>published_messages\<close> has grown by \<open>N\<close> in the
  arithmetic of \<open>size_t\<close>, which is by exactly \<open>N\<close> as long as the counter stays within
  \<open>SIZE_MAX\<close>: the counter is incremented before the queue is found full, so it counts
  the rejected publishes too.
\<close>

theorem publish_on_bounded_queue:
  assumes "running b" and "unat (max_queue_size (config b)) = K" and "0 < K"
    and "message_queue b = []" and "K < length tms"
    and "publish_seq b tms = (oks, b')"
  shows "oks = replicate K True @ replicate (length tms - K) False
       \<and> message_queue b' = map snd (take K tms)
       \<and> published_messages b' = published_messages b + of_nat (length tms)
       \<and> (unat (published_messages b) + length tms \<le> unat SIZE_MAX \<longrightarrow>
            unat (published_messages b') = unat (published_messages b) + length tms)"
proof -
  have "length (message_queue b) \<le> K" using assms(4) by simp
  from publish_seq_bounded [OF assms(1,2,3) this assms(6)] assms(4,5)
  have main: "oks = replicate K True @ replicate (length tms - K) False"
    "message_queue b' = map snd (take K tms)"
    "published_messages b' = published_messages b + of_nat (length tms)"
    by (simp_all add: min_def)
  have "unat (published_messages b') = unat (published_messages b) + length tms"
    if "unat (published_messages b) + length tms \<le> unat SIZE_MAX"
    unfolding main(3) using that by (rule unat_add_of_nat)
  with main show ?thesis by simp
qed

theorem publish_on_bounded_queue_witness:
  "running (example_broker 2 []) \<and> unat (max_queue_size (config (example_broker 2 []))) = 2
 \<and> message_queue (example_broker 2 []) = []
 \<and> fst (publish_seq (example_broker 2 [])
      [(''t'', example_message ''t'' Critical), (''t'', example_message ''t'' Low),
       (''t'', example_message ''t'' High)]) = replicate 2 True @ replicate (3 - 2) False
 \<and> published_messages (snd (publish_seq (example_broker 2 [])
      [(''t'', example_message ''t'' Critical), (''t'', example_message ''t'' Low),
       (''t'', example_message ''t'' High)])) = published_messages (example_broker 2 []) + 3
 \<and> unat (published_messages (snd (publish_seq (example_broker 2 [])
      [(''t'', example_message ''t'' Critical), (''t'', example_message ''t'' Low),
       (''t'', example_message ''t'' High)]))) = unat (published_messages (example_broker 2 [])) + 3"
proof -
  have h: "running (example_broker 2 [])" "unat (max_queue_size (config (example_broker 2 []))) = 2"
    "(0::nat) < 2" "message_queue (example_broker 2 []) = []"
    "2 < length [(''t'', example_message ''t'' Critical), (''t'', example_message ''t'' Low),
       (''t'', example_message ''t'' High)]"
    by (simp_all add: example_broker_def)
  from publish_on_bounded_queue [OF h example_publish] h show ?thesis
    unfolding example_publish by (simp add: example_broker_def)
qed

text \<open>
  C1 as stated fails: with \<open>K = 2\<close> and three publishes of priorities Critical, Low
  and High the results are true, true, false, and \<open>published_messages\<close> goes from 0
  to 3, not to 2.
\<close>

theorem published_counter_counterexample:
  "fst (publish_seq (example_broker 2 [])
      [(''t'', example_message ''t'' Critical), (''t'', example_message ''t'' Low),
       (''t'', example_message ''t'' High)]) = [True, True, False]
 \<and> published_messages (example_broker 2 []) = 0
 \<and> published_messages (snd (publish_seq (example_broker 2 [])
      [(''t'', example_message ''t'' Critical), (''t'', example_message ''t'' Low),
       (''t'', example_message ''t'' High)])) = 3"
  unfolding example_publish by (simp add: example_broker_def)

text \<open>
  C2. \<open>process_message\<close> calls \<open>deliver\<close> once on each subscription of the registry
  whose filter matches the topic of the message, in the registry's order, and on no
  other; each result is the one \<open>deliver\<close> gives on that subscription as the registry
  held it; after the round the registry holds, for each of these subscriptions, the
  subscription that its call of \<open>deliver\<close> left, and every other entry unchanged; and
  \<open>delivered_messages\<close> grows by the number of calls that returned \<open>Success\<close>, in the
  arithmetic of \<open>size_t\<close>, which is by exactly that number as long as the counter stays
  within \<open>SIZE_MAX\<close>.
\<close>

theorem process_message_delivers_once:
  assumes "distinct (map fst (subscriptions b))" and "process_message b m = (b', log)"
  shows "map fst log = find_matching b m
       \<and> distinct (map fst log)
       \<and> set (map fst log)
           = {k. \<exists>s. map_of (subscriptions b) k = Some s \<and> sub_matches s (msg_topic m)}
       \<and> (\<forall>(k, r) \<in> set log. \<exists>s. map_of (subscriptions b) k = Some s \<and> r = fst (deliver s m))
       \<and> (\<forall>k. map_of (subscriptions b') k =
              (if k \<in> set (map fst log)
               then map_option (\<lambda>s. fst (snd (deliver s m))) (map_of (subscriptions b) k)
               else map_of (subscriptions b) k))
       \<and> delivered_messages b'
           = delivered_messages b + of_nat (length (filter (\<lambda>(k, r). r = Success) log))
       \<and> (unat (delivered_messages b) + length (filter (\<lambda>(k, r). r = Success) log) \<le> unat SIZE_MAX
            \<longrightarrow> unat (delivered_messages b')
                  = unat (delivered_messages b) + length (filter (\<lambda>(k, r). r = Success) log))"
proof -
  let ?D = "\<lambda>k. fst (deliver (the (map_of (subscriptions b) k)) m)"
  note l = process_message_log [OF assms]
  have keys: "map fst log = find_matching b m"
    unfolding l(1) by (simp add: comp_def)
  have dist: "distinct (map fst log)"
    unfolding keys using assms(1) by (rule find_matching_distinct)
  have dom: "set (map fst log)
           = {k. \<exists>s. map_of (subscriptions b) k = Some s \<and> sub_matches s (msg_topic m)}"
    unfolding keys using find_matching_iff [OF assms(1)] by blast
  have res: "\<forall>(k, r) \<in> set log. \<exists>s. map_of (subscriptions b) k = Some s \<and> r = fst (deliver s m)"
  proof (clarify)
    fix k r assume "(k, r) \<in> set log"
    then have k: "k \<in> set (find_matching b m)" and r: "r = ?D k"
      unfolding l(1) by auto
    from k obtain s where "map_of (subscriptions b) k = Some s"
      using find_matching_iff [OF assms(1)] by blast
    with r show "\<exists>s. map_of (subscriptions b) k = Some s \<and> r = fst (deliver s m)" by simp
  qed
  have reg: "\<forall>k. map_of (subscriptions b') k =
              (if k \<in> set (map fst log)
               then map_option (\<lambda>s. fst (snd (deliver s m))) (map_of (subscriptions b) k)
               else map_of (subscriptions b) k)"
    unfolding keys using l(3) by blast
  have "length (filter (\<lambda>(k, r). r = Success) log) = length (filter (\<lambda>k. ?D k = Success) (find_matching b m))"
    unfolding l(1) by (simp add: filter_map comp_def)
  with l(2) have cnt: "delivered_messages b'
      = delivered_messages b + of_nat (length (filter (\<lambda>(k, r). r = Success) log))"
    by simp
  have ucnt: "unat (delivered_messages b')
                  = unat (delivered_messages b) + length (filter (\<lambda>(k, r). r = Success) log)"
    if "unat (delivered_messages b) + length (filter (\<lambda>(k, r). r = Success) log) \<le> unat SIZE_MAX"
    unfolding cnt using that by (rule unat_add_of_nat)
  from keys dist dom res reg cnt ucnt show ?thesis by blast
qed

theorem process_message_delivers_once_witness:
  "distinct (map fst (subscriptions (example_broker 0 example_registry)))
 \<and> snd (process_message (example_broker 0 example_registry) (example_message ''a'' Normal))
     = [(''sub_0'', Success), (''sub_2'', Error)]
 \<and> find_matching (example_broker 0 example_registry) (example_message ''a'' Normal)
     = [''sub_0'', ''sub_2'']
 \<and> delivered_messages
      (fst (process_message (example_broker 0 example_registry) (example_message ''a'' Normal)))
     = delivered_messages (example_broker 0 example_registry) + 1
 \<and> unat (delivered_messages
      (fst (process_message (example_broker 0 example_registry) (example_message ''a'' Normal))))
     = unat (delivered_messages (example_broker 0 example_registry)) + 1"
proof -
  have d: "distinct (map fst (subscriptions (example_broker 0 example_registry)))"
    by (simp add: example_broker_def example_registry_def)
  from process_message_delivers_once [OF d example_process] d show ?thesis
    by (simp add: example_process)
qed

text \<open>
  The counters wrap: a successful delivery with \<open>delivered_messages\<close> at \<open>SIZE_MAX\<close>
  leaves it at 0, and so does a publish for \<open>published_messages\<close>.
\<close>

lemma broker_counters_wrap:
  "delivered_messages (fst (process_message
      ((example_broker 0 example_registry)\<lparr>delivered_messages := SIZE_MAX\<rparr>)
      (example_message ''b'' Normal))) = 0"
  "published_messages (snd (publish ((example_broker 0 [])\<lparr>published_messages := SIZE_MAX\<rparr>)
      ''t'' (example_message ''t'' Normal))) = 0"
  by (simp_all add: process_message_def find_matching_def example_broker_def example_registry_def
      example_subscription_def Subscription_new_def example_options_def example_message_def
      sub_matches_def deliver_cases publish_cases SIZE_MAX_def)



text \<open>
  C10. The topic argument of \<open>publish\<close> changes nothing: two calls that differ in it
  only return the same result and the same broker, hence the same queue and the same
  next round of a worker. The message goes into the queue as it is, and the
  subscriptions a worker selects for it depend on the topic inside the message only.
\<close>

theorem publish_ignores_topic_argument:
  "publish b t1 m = publish b t2 m
 \<and> worker_round (snd (publish b t1 m)) = worker_round (snd (publish b t2 m))
 \<and> (fst (publish b t1 m) \<longrightarrow> message_queue (snd (publish b t1 m)) = message_queue b @ [m])
 \<and> (\<not> fst (publish b t1 m) \<longrightarrow> message_queue (snd (publish b t1 m)) = message_queue b)
 \<and> (msg_topic m' = msg_topic m \<longrightarrow> find_matching b m' = find_matching b m)"
  by (simp add: publish_cases find_matching_def)

theorem publish_ignores_topic_argument_witness:
  "publish (example_broker 2 []) ''x'' (example_message ''t'' Normal)
     = publish (example_broker 2 []) ''t'' (example_message ''t'' Normal)
 \<and> fst (publish (example_broker 2 []) ''x'' (example_message ''t'' Normal))
 \<and> message_queue (snd (publish (example_broker 2 []) ''x'' (example_message ''t'' Normal)))
     = [example_message ''t'' Normal]"
  using publish_ignores_topic_argument [of "example_broker 2 []" "''x''" "example_message ''t'' Normal" "''t''"]
  by (simp add: publish_cases example_broker_def)

end
